theory Spec2Isabelle
  imports Main "HOL-Library.Word" "HOL-Library.AList"
begin

section \<open>Data model of \<^verbatim>\<open>main.go\<close>\<close>

text \<open>
  Go's \<^verbatim>\<open>int\<close> is a 64-bit two's complement integer on the usual targets; the stored
  integer fields (\<^verbatim>\<open>Score\<close>, \<^verbatim>\<open>Timer\<close>, \<^verbatim>\<open>Duration\<close>) are words, so that \<^verbatim>\<open>Score++\<close>
  wraps as it does in Go and comparisons with zero are signed. Values of \<^verbatim>\<open>len\<close> and
  loop counters over in-memory collections are below \<open>2 ^ 63\<close> and are natural numbers
  or integers.

  A Go map that the code iterates over (\<^verbatim>\<open>Players\<close>, \<^verbatim>\<open>Votes\<close>) is an association list
  with distinct keys: the list order stands for one iteration order, and the theorems
  hold for every order. A Go map that is only looked up and rebuilt (\<^verbatim>\<open>BlockedVoters\<close>,
  \<^verbatim>\<open>Voted\<close>) is a partial function. A channel is the number under which it was made,
  a connection its number.
\<close>

type_synonym go_int = "64 word"
type_synonym chan = nat
type_synonym conn = nat

record Player =
  ID :: string
  Name :: string
  Score :: go_int
  Role :: string
  Conn :: "conn option"

record VotePair =
  VoterID :: string
  TargetID :: string

record Room =
  Code :: string
  State :: string
  HostID :: string
  JudgeID :: string
  InsiderID :: string
  Timer :: go_int
  SecretWord :: string
  RoundEndByTimeout :: bool
  ChatEnabled :: bool
  BlockedVoters :: "string \<rightharpoonup> bool"
  Voted :: "string \<rightharpoonup> bool"
  LastVotes :: "VotePair list"
  Players :: "(string \<times> Player) list"
  Votes :: "(string \<times> string) list"
  timerRunning :: bool
  timerCancel :: "chan option"

text \<open>The fields of \<^verbatim>\<open>ClientMessage\<close>, prefixed with \<open>m\<close>.\<close>

record ClientMessage =
  mType :: string
  mTargetID :: string
  mDuration :: go_int
  mSuspectID :: string
  mSecretWord :: string
  mText :: string
  mChatEnabled :: "bool option"

definition RoundDurationSeconds :: go_int where
  "RoundDurationSeconds = 300"

definition VoteDurationSeconds :: go_int where
  "VoteDurationSeconds = 90"

section \<open>The room registry\<close>

text \<open>
  The global \<^verbatim>\<open>rooms\<close> maps a code to a room. \<^verbatim>\<open>getOrCreateRoom\<close> returns the pair
  \<^verbatim>\<open>(*Room, bool)\<close> and the registry it leaves behind; \<^verbatim>\<open>nil\<close> is \<open>None\<close>.
\<close>

type_synonym registry = "string \<rightharpoonup> Room"

definition newRoom :: "string \<Rightarrow> Room" where
  "newRoom code =
     \<lparr>Code = code, State = ''lobby'', HostID = '''', JudgeID = '''', InsiderID = '''',
      Timer = 0, SecretWord = '''', RoundEndByTimeout = False, ChatEnabled = True,
      BlockedVoters = Map.empty, Voted = Map.empty, LastVotes = [],
      Players = [], Votes = [], timerRunning = False, timerCancel = None\<rparr>"

definition getOrCreateRoom ::
  "string \<Rightarrow> bool \<Rightarrow> registry \<Rightarrow> (Room option \<times> bool) \<times> registry" where
  "getOrCreateRoom code create rooms =
     (case rooms code of
        Some room \<Rightarrow>
          if create then ((None, False), rooms) else ((Some room, True), rooms)
      | None \<Rightarrow>
          if \<not> create then ((None, False), rooms)
          else (let room = newRoom code in ((Some room, True), rooms(code \<mapsto> room))))"

definition deleteRoomIfEmpty :: "Room \<Rightarrow> registry \<Rightarrow> registry" where
  "deleteRoomIfEmpty room rooms =
     (if length (Players room) = 0 then rooms(Code room := None) else rooms)"

section \<open>The state of one room, its channels and its timer goroutines\<close>

text \<open>
  Every critical section of the source (from \<^verbatim>\<open>room.mu.Lock()\<close> to the matching
  \<^verbatim>\<open>Unlock\<close>) is one function on the state; a handler that takes the lock several
  times is the composition of its sections, run here without another goroutine in
  between. Closing a closed channel panics in Go, and so does an index out of range:
  a panic is the \<open>Inl\<close> result. \<^verbatim>\<open>broadcastRoom\<close>, \<^verbatim>\<open>sendRoomToPlayer\<close> and the chat relay
  only read the room and write to connections; they are left out. An error sent to the
  sender with \<^verbatim>\<open>sendError\<close> is the \<open>err option\<close> component of a handler's result.
\<close>

datatype timer_kind = CountdownTimer | VoteTimer

datatype panic = CloseOfClosedChannel | IndexOutOfRange

record World =
  room :: Room
  closedChans :: "chan set"
  nchan :: nat
  goroutines :: "(timer_kind \<times> chan) list"

definition andThen :: "panic + 'a \<Rightarrow> ('a \<Rightarrow> panic + 'b) \<Rightarrow> panic + 'b" where
  "andThen m f = (case m of Inl p \<Rightarrow> Inl p | Inr x \<Rightarrow> f x)"

text \<open>\<^verbatim>\<open>close(c)\<close>.\<close>

definition closeChan :: "chan \<Rightarrow> World \<Rightarrow> panic + World" where
  "closeChan c w =
     (if c \<in> closedChans w then Inl CloseOfClosedChannel
      else Inr (w\<lparr>closedChans := insert c (closedChans w)\<rparr>))"

text \<open>The world in which \<^verbatim>\<open>getOrCreateRoom\<close> has just made the room.\<close>

definition initWorld :: "string \<Rightarrow> World" where
  "initWorld code = \<lparr>room = newRoom code, closedChans = {}, nchan = 0, goroutines = []\<rparr>"

subsection \<open>\<^verbatim>\<open>assignRoles\<close>\<close>

text \<open>
  \<open>rnd\<close> is the value drawn by \<^verbatim>\<open>rand.Intn(len(candidates))\<close>, which lies below the
  length. A write through a \<^verbatim>\<open>*Player\<close> changes the entry of the map that holds the
  pointer.
\<close>

definition assignRoles :: "nat \<Rightarrow> Room \<Rightarrow> Room" where
  "assignRoles rnd room0 =
     (let r1 = room0\<lparr>InsiderID := '''',
                 Players := map (\<lambda>(k, p). (k, p\<lparr>Role := ''normal''\<rparr>)) (Players room0)\<rparr>;
          r2 = (if JudgeID r1 \<noteq> '''' then
                  (case map_of (Players r1) (JudgeID r1) of
                     Some j \<Rightarrow> r1\<lparr>Players :=
                       AList.update (JudgeID r1) (j\<lparr>Role := ''judge''\<rparr>) (Players r1)\<rparr>
                   | None \<Rightarrow> r1)
                else r1);
          candidates = filter (\<lambda>(k, p). ID p \<noteq> JudgeID r2) (Players r2)
      in if length candidates = 0 then r2
         else (case candidates ! (rnd mod length candidates) of
                 (k, ins) \<Rightarrow>
                   r2\<lparr>InsiderID := ID ins,
                      Players := AList.update k (ins\<lparr>Role := ''insider''\<rparr>) (Players r2),
                      State := ''assign_roles''\<rparr>))"

subsection \<open>\<^verbatim>\<open>startCountdownTimer\<close> and \<^verbatim>\<open>startVoteTimer\<close>\<close>

definition startCountdownTimer :: "go_int \<Rightarrow> World \<Rightarrow> panic + World" where
  "startCountdownTimer duration w =
     andThen (case timerCancel (room w) of None \<Rightarrow> Inr w | Some c \<Rightarrow> closeChan c w)
       (\<lambda>w1. let cancelChan = nchan w1 in
          Inr (w1\<lparr>room := (room w1)\<lparr>Timer := duration, State := ''countdown'',
                   timerRunning := True, timerCancel := Some cancelChan,
                   RoundEndByTimeout := False, BlockedVoters := Map.empty,
                   Voted := Map.empty, LastVotes := []\<rparr>,
                 nchan := Suc cancelChan,
                 goroutines := goroutines w1 @ [(CountdownTimer, cancelChan)]\<rparr>))"

definition startVoteTimer :: "go_int \<Rightarrow> World \<Rightarrow> panic + World" where
  "startVoteTimer duration w =
     andThen (case timerCancel (room w) of None \<Rightarrow> Inr w | Some c \<Rightarrow> closeChan c w)
       (\<lambda>w1. let cancelChan = nchan w1 in
          Inr (w1\<lparr>room := (room w1)\<lparr>Timer := duration, State := ''voting'',
                   timerRunning := True, timerCancel := Some cancelChan\<rparr>,
                 nchan := Suc cancelChan,
                 goroutines := goroutines w1 @ [(VoteTimer, cancelChan)]\<rparr>))"

text \<open>
  One \<^verbatim>\<open>case <-ticker.C\<close> of the countdown goroutine: the room after it, and whether
  the loop goes on. \<open>countdownLoop n\<close> is the goroutine over \<open>n\<close> ticks of its ticker,
  its \<^verbatim>\<open>cancel\<close> channel never closed.
\<close>

definition countdownTick :: "Room \<Rightarrow> Room \<times> bool" where
  "countdownTick r =
     (if \<not> timerRunning r then (r, False)
      else let r1 = (if 0 <s Timer r then r\<lparr>Timer := Timer r - 1\<rparr> else r) in
        if Timer r1 \<le>s 0 then
          (r1\<lparr>Timer := 0, timerRunning := False, State := ''scoreboard'',
              RoundEndByTimeout := True, Votes := []\<rparr>, False)
        else (r1, True))"

fun countdownLoop :: "nat \<Rightarrow> Room \<Rightarrow> Room \<times> bool" where
  "countdownLoop 0 r = (r, True)"
| "countdownLoop (Suc n) r =
     (case countdownTick r of
        (r', continue) \<Rightarrow> if continue then countdownLoop n r' else (r', False))"

subsection \<open>\<^verbatim>\<open>handleTallyVotes\<close>\<close>

text \<open>\<^verbatim>\<open>count[suspectID]\<close>, zero for a missing key, and the loop \<^verbatim>\<open>count[suspectID]++\<close>.\<close>

definition countOf :: "(string \<times> int) list \<Rightarrow> string \<Rightarrow> int" where
  "countOf count k = (case map_of count k of None \<Rightarrow> 0 | Some c \<Rightarrow> c)"

definition countVotes :: "(string \<times> string) list \<Rightarrow> (string \<times> int) list" where
  "countVotes votes =
     fold (\<lambda>(voterID, suspectID) count.
             AList.update suspectID (countOf count suspectID + 1) count) votes []"

definition maxVoteOf :: "(string \<times> int) list \<Rightarrow> int" where
  "maxVoteOf count = fold (\<lambda>(k, c) maxVote. if c > maxVote then c else maxVote) count (- 1)"

definition topOf :: "(string \<times> int) list \<Rightarrow> string list" where
  "topOf count = map fst (filter (\<lambda>(k, c). c = maxVoteOf count) count)"

definition handleTallyVotes :: "Room \<Rightarrow> panic + Room" where
  "handleTallyVotes room0 =
     (if length (Players room0) = 0 then Inr room0
      else
        let r1 = room0\<lparr>LastVotes :=
                   map (\<lambda>(voterID, targetID). \<lparr>VoterID = voterID, TargetID = targetID\<rparr>)
                     (Votes room0)\<rparr>;
            count = countVotes (Votes r1)
        in if length count = 0 then
             Inr (r1\<lparr>State := ''scoreboard'', Votes := [], Voted := Map.empty,
                     BlockedVoters := Map.empty\<rparr>)
           else
             let top = topOf count in
             if length top > 1 then
               Inr (r1\<lparr>State := ''voting'', Votes := [], Voted := Map.empty,
                       BlockedVoters := fold (\<lambda>k b. b(k \<mapsto> True)) top Map.empty\<rparr>)
             else
               (case top of
                  [] \<Rightarrow> Inl IndexOutOfRange
                | votedID # _ \<Rightarrow>
                    let isCorrect = (votedID = InsiderID r1);
                        ps = (if isCorrect then
                                map (\<lambda>(k, p).
                                       if ID p = InsiderID r1 \<or> ID p = JudgeID r1 then (k, p)
                                       else (k, p\<lparr>Score := Score p + 1\<rparr>)) (Players r1)
                              else
                                (case map_of (Players r1) (InsiderID r1) of
                                   Some ins \<Rightarrow>
                                     AList.update (InsiderID r1) (ins\<lparr>Score := Score ins + 2\<rparr>)
                                       (Players r1)
                                 | None \<Rightarrow> Players r1))
                    in Inr (r1\<lparr>Players := ps, State := ''scoreboard'', Votes := [],
                              Voted := Map.empty, BlockedVoters := Map.empty\<rparr>)))"

text \<open>
  One \<^verbatim>\<open>case <-ticker.C\<close> of the vote goroutine. Its critical section ends before the
  tally, which takes the lock again.
\<close>

datatype tick_result = Exit | Continue | TallyThenExit

definition voteTick_locked :: "Room \<Rightarrow> Room \<times> tick_result" where
  "voteTick_locked r =
     (if \<not> timerRunning r then (r, Exit)
      else let r1 = (if 0 <s Timer r then r\<lparr>Timer := Timer r - 1\<rparr> else r) in
        if Timer r1 \<le>s 0 then (r1\<lparr>Timer := 0, timerRunning := False\<rparr>, TallyThenExit)
        else (r1, Continue))"

definition voteTick :: "Room \<Rightarrow> panic + (Room \<times> bool)" where
  "voteTick r =
     (case voteTick_locked r of
        (r1, Exit) \<Rightarrow> Inr (r1, False)
      | (r1, Continue) \<Rightarrow> Inr (r1, True)
      | (r1, TallyThenExit) \<Rightarrow> andThen (handleTallyVotes r1) (\<lambda>r2. Inr (r2, False)))"

subsection \<open>\<^verbatim>\<open>handleGuessCorrect\<close> and \<^verbatim>\<open>handleNextRound\<close>\<close>

text \<open>
  The block \<^verbatim>\<open>if room.timerRunning { room.timerRunning = false; if room.timerCancel != nil
  { close(room.timerCancel); room.timerCancel = nil } }\<close>, which \<^verbatim>\<open>handleGuessCorrect\<close> and
  the \<^verbatim>\<open>vote_insider\<close> case both contain.
\<close>

definition stopRunningTimer :: "World \<Rightarrow> panic + World" where
  "stopRunningTimer w =
     (if timerRunning (room w) then
        (case timerCancel (room w) of
           Some c \<Rightarrow>
             andThen (closeChan c w)
               (\<lambda>w1. Inr (w1\<lparr>room := (room w1)\<lparr>timerRunning := False, timerCancel := None\<rparr>\<rparr>))
         | None \<Rightarrow> Inr (w\<lparr>room := (room w)\<lparr>timerRunning := False\<rparr>\<rparr>))
      else Inr w)"

definition guessCorrect_locked :: "World \<Rightarrow> panic + World" where
  "guessCorrect_locked w =
     andThen (stopRunningTimer w)
       (\<lambda>w1. Inr (w1\<lparr>room := (room w1)\<lparr>RoundEndByTimeout := False, State := ''voting'',
                       Votes := [], Voted := Map.empty, BlockedVoters := Map.empty,
                       LastVotes := []\<rparr>\<rparr>))"

definition handleGuessCorrect :: "World \<Rightarrow> panic + World" where
  "handleGuessCorrect w = andThen (guessCorrect_locked w) (startVoteTimer VoteDurationSeconds)"

definition handleNextRound :: "World \<Rightarrow> panic + World" where
  "handleNextRound w =
     andThen (case timerCancel (room w) of None \<Rightarrow> Inr w | Some c \<Rightarrow> closeChan c w)
       (\<lambda>w1. Inr (w1\<lparr>room := (room w1)\<lparr>
                 Players := map (\<lambda>(k, p). (k, p\<lparr>Role := ''''\<rparr>)) (Players (room w1)),
                 InsiderID := '''', Timer := 0, timerRunning := False, timerCancel := None,
                 State := ''lobby'', Votes := [], RoundEndByTimeout := False,
                 BlockedVoters := Map.empty, Voted := Map.empty, LastVotes := []\<rparr>\<rparr>))"

subsection \<open>\<^verbatim>\<open>wsHandler\<close>: joining, leaving, and the cases of the message switch\<close>

text \<open>The texts given to \<^verbatim>\<open>sendError\<close>, one constructor for each call in the switch.\<close>

datatype err =
    ChatEnabledRequired | OnlyHostSetsChat
  | SecretWordRequired | NotEnoughPlayers
  | OnlyJudgeGuesses
  | SuspectRequired | NotVoting | JudgeCannotVote | SuspectsCannotVote | SelfVote
  | InvalidSuspect
  | OnlyHostKicks | TargetRequired | KickSelf | TargetGone

definition ws_join :: "string \<Rightarrow> string \<Rightarrow> conn \<Rightarrow> Room \<Rightarrow> Room" where
  "ws_join playerID playerName c r =
     (let player = \<lparr>ID = playerID, Name = playerName, Score = 0, Role = '''', Conn = Some c\<rparr>;
          r1 = r\<lparr>Players := AList.update playerID player (Players r)\<rparr>
      in if HostID r1 = '''' then r1\<lparr>HostID := playerID\<rparr> else r1)"

text \<open>
  The deferred function. The loop \<^verbatim>\<open>for id := range room.Players { room.HostID = id; break }\<close>
  takes the first key of an unspecified order: the key at position \<open>pick\<close>.
\<close>

definition ws_leave :: "nat \<Rightarrow> string \<Rightarrow> Room \<Rightarrow> Room" where
  "ws_leave pick playerID r =
     (let r1 = r\<lparr>Players := AList.delete playerID (Players r)\<rparr>;
          r2 = (if HostID r1 = playerID then
                  (if Players r1 = [] then r1\<lparr>HostID := ''''\<rparr>
                   else r1\<lparr>HostID := fst (Players r1 ! (pick mod length (Players r1)))\<rparr>)
                else r1)
      in if JudgeID r2 = playerID then r2\<lparr>JudgeID := ''''\<rparr> else r2)"

definition ws_set_judge :: "ClientMessage \<Rightarrow> Room \<Rightarrow> Room" where
  "ws_set_judge msg r =
     (case map_of (Players r) (mTargetID msg) of
        Some _ \<Rightarrow> r\<lparr>JudgeID := mTargetID msg\<rparr>
      | None \<Rightarrow> r)"

definition ws_set_chat_enabled :: "string \<Rightarrow> ClientMessage \<Rightarrow> Room \<Rightarrow> err option \<times> Room" where
  "ws_set_chat_enabled playerID msg r =
     (case mChatEnabled msg of
        None \<Rightarrow> (Some ChatEnabledRequired, r)
      | Some b \<Rightarrow>
          if HostID r \<noteq> playerID then (Some OnlyHostSetsChat, r)
          else (None, r\<lparr>ChatEnabled := b\<rparr>))"

text \<open>
  \<^verbatim>\<open>start_round\<close>: its first critical section reads the counts and stores the secret
  word; the checks follow outside the lock.
\<close>

definition start_round_locked :: "ClientMessage \<Rightarrow> Room \<Rightarrow> (bool \<times> int) \<times> Room" where
  "start_round_locked msg r =
     (let totalPlayers = int (length (Players r));
          hasJudge = (JudgeID r \<noteq> '''');
          nonJudgeCount = (if hasJudge then totalPlayers - 1 else totalPlayers)
      in ((hasJudge, nonJudgeCount), r\<lparr>SecretWord := mSecretWord msg\<rparr>))"

definition ws_start_round :: "ClientMessage \<Rightarrow> nat \<Rightarrow> World \<Rightarrow> panic + (err option \<times> World)" where
  "ws_start_round msg rnd w =
     (let duration = (if mDuration msg \<le>s 0 then RoundDurationSeconds else mDuration msg) in
      case start_round_locked msg (room w) of
        ((hasJudge, nonJudgeCount), r1) \<Rightarrow>
          if mSecretWord msg = '''' then Inr (Some SecretWordRequired, w\<lparr>room := r1\<rparr>)
          else if \<not> hasJudge \<or> nonJudgeCount < 3 then
            Inr (Some NotEnoughPlayers, w\<lparr>room := r1\<rparr>)
          else
            andThen (startCountdownTimer duration (w\<lparr>room := assignRoles rnd r1\<rparr>))
              (\<lambda>w2. Inr (None, w2)))"

definition ws_guess_correct :: "string \<Rightarrow> World \<Rightarrow> panic + (err option \<times> World)" where
  "ws_guess_correct playerID w =
     (let isJudge = (JudgeID (room w) = playerID) in
      if \<not> isJudge then Inr (Some OnlyJudgeGuesses, w)
      else andThen (handleGuessCorrect w) (\<lambda>w1. Inr (None, w1)))"

text \<open>\<^verbatim>\<open>room.BlockedVoters != nil && room.BlockedVoters[id]\<close>; a nil map reads as an empty one.\<close>

definition isBlocked :: "Room \<Rightarrow> string \<Rightarrow> bool" where
  "isBlocked r k = (BlockedVoters r k = Some True)"

definition eligibleCount :: "Room \<Rightarrow> int" where
  "eligibleCount r =
     fold (\<lambda>(k, p) eligible.
             if k = JudgeID r then eligible
             else if isBlocked r k then eligible
             else eligible + 1) (Players r) 0"

text \<open>
  The critical section of \<^verbatim>\<open>vote_insider\<close>: the error sent, if any; whether the tally
  is to follow; the state.
\<close>

definition vote_insider_locked ::
  "string \<Rightarrow> ClientMessage \<Rightarrow> World \<Rightarrow> panic + (err option \<times> bool \<times> World)" where
  "vote_insider_locked playerID msg w =
     (let r = room w in
      if mSuspectID msg = '''' then Inr (Some SuspectRequired, False, w)
      else if State r \<noteq> ''voting'' then Inr (Some NotVoting, False, w)
      else if playerID = JudgeID r then Inr (Some JudgeCannotVote, False, w)
      else if isBlocked r playerID then Inr (Some SuspectsCannotVote, False, w)
      else if mSuspectID msg = playerID then Inr (Some SelfVote, False, w)
      else if map_of (Players r) (mSuspectID msg) = None then
        Inr (Some InvalidSuspect, False, w)
      else
        let r1 = r\<lparr>Votes := AList.update playerID (mSuspectID msg) (Votes r),
                   Voted := (Voted r)(playerID \<mapsto> True)\<rparr>;
            eligible = eligibleCount r1
        in if int (length (Votes r1)) \<ge> eligible \<and> eligible > 0 then
             andThen (stopRunningTimer (w\<lparr>room := r1\<rparr>)) (\<lambda>w1. Inr (None, True, w1))
           else Inr (None, False, w\<lparr>room := r1\<rparr>))"

definition ws_vote_insider ::
  "string \<Rightarrow> ClientMessage \<Rightarrow> World \<Rightarrow> panic + (err option \<times> World)" where
  "ws_vote_insider playerID msg w =
     andThen (vote_insider_locked playerID msg w)
       (\<lambda>(e, tally, w1).
          if tally then
            andThen (handleTallyVotes (room w1)) (\<lambda>r2. Inr (e, w1\<lparr>room := r2\<rparr>))
          else Inr (e, w1))"

definition ws_next_round :: "World \<Rightarrow> panic + (err option \<times> World)" where
  "ws_next_round w = andThen (handleNextRound w) (\<lambda>w1. Inr (None, w1))"

definition ws_kick :: "string \<Rightarrow> ClientMessage \<Rightarrow> Room \<Rightarrow> err option \<times> Room" where
  "ws_kick playerID msg r =
     (if HostID r \<noteq> playerID then (Some OnlyHostKicks, r)
      else if mTargetID msg = '''' then (Some TargetRequired, r)
      else if mTargetID msg = HostID r then (Some KickSelf, r)
      else
        (case map_of (Players r) (mTargetID msg) of
           None \<Rightarrow> (Some TargetGone, r)
         | Some target \<Rightarrow>
             let r1 = (if JudgeID r = mTargetID msg then r\<lparr>JudgeID := ''''\<rparr> else r)
             in (None, r1\<lparr>Players := AList.delete (mTargetID msg) (Players r1)\<rparr>)))"

subsection \<open>Runs of critical sections\<close>

text \<open>
  Goroutines interleave at the lock: a run of the server on one room is a sequence of
  critical sections, in any order. Every sequence is allowed here, also those in which
  a section runs without the check that precedes it in its handler, so a property of
  all runs holds for every schedule of the handlers and timers.
\<close>

datatype op =
    OpJoin string string conn
  | OpLeave nat string
  | OpSetJudge ClientMessage
  | OpSetChatEnabled string ClientMessage
  | OpStartRoundLocked ClientMessage
  | OpAssignRoles nat
  | OpStartCountdownTimer go_int
  | OpStartVoteTimer go_int
  | OpCountdownTick
  | OpVoteTickLocked
  | OpGuessCorrectLocked
  | OpVoteInsiderLocked string ClientMessage
  | OpTallyVotes
  | OpNextRound
  | OpKick string ClientMessage

definition onRoom :: "(Room \<Rightarrow> Room) \<Rightarrow> World \<Rightarrow> panic + World" where
  "onRoom f w = Inr (w\<lparr>room := f (room w)\<rparr>)"

fun apply_op :: "op \<Rightarrow> World \<Rightarrow> panic + World" where
  "apply_op (OpJoin playerID playerName c) w = onRoom (ws_join playerID playerName c) w"
| "apply_op (OpLeave pick playerID) w = onRoom (ws_leave pick playerID) w"
| "apply_op (OpSetJudge msg) w = onRoom (ws_set_judge msg) w"
| "apply_op (OpSetChatEnabled playerID msg) w =
     onRoom (\<lambda>r. snd (ws_set_chat_enabled playerID msg r)) w"
| "apply_op (OpStartRoundLocked msg) w = onRoom (\<lambda>r. snd (start_round_locked msg r)) w"
| "apply_op (OpAssignRoles rnd) w = onRoom (assignRoles rnd) w"
| "apply_op (OpStartCountdownTimer d) w = startCountdownTimer d w"
| "apply_op (OpStartVoteTimer d) w = startVoteTimer d w"
| "apply_op OpCountdownTick w = onRoom (\<lambda>r. fst (countdownTick r)) w"
| "apply_op OpVoteTickLocked w = onRoom (\<lambda>r. fst (voteTick_locked r)) w"
| "apply_op OpGuessCorrectLocked w = guessCorrect_locked w"
| "apply_op (OpVoteInsiderLocked playerID msg) w =
     andThen (vote_insider_locked playerID msg w) (\<lambda>(e, tally, w1). Inr w1)"
| "apply_op OpTallyVotes w =
     andThen (handleTallyVotes (room w)) (\<lambda>r. Inr (w\<lparr>room := r\<rparr>))"
| "apply_op OpNextRound w = handleNextRound w"
| "apply_op (OpKick playerID msg) w = onRoom (\<lambda>r. snd (ws_kick playerID msg r)) w"

fun run :: "op list \<Rightarrow> World \<Rightarrow> panic + World" where
  "run [] w = Inr w"
| "run (x # xs) w = andThen (apply_op x w) (run xs)"

section \<open>Notions of the specification, and the invariants of a room\<close>

definition votesFor :: "(string \<times> string) list \<Rightarrow> string \<Rightarrow> int" where
  "votesFor votes t = int (length (filter (\<lambda>(voterID, suspectID). suspectID = t) votes))"

definition tiedTargets :: "(string \<times> string) list \<Rightarrow> string set" where
  "tiedTargets votes =
     {t \<in> snd ` set votes. \<forall>t' \<in> snd ` set votes. votesFor votes t' \<le> votesFor votes t}"

definition countStep :: "string \<times> string \<Rightarrow> (string \<times> int) list \<Rightarrow> (string \<times> int) list" where
  "countStep = (\<lambda>(voterID, suspectID) count.
             AList.update suspectID (countOf count suspectID + 1) count)"

definition players_ok :: "Room \<Rightarrow> bool" where
  "players_ok r \<longleftrightarrow>
     distinct (map fst (Players r)) \<and> (\<forall>(k, p) \<in> set (Players r). ID p = k)"

definition votes_ok :: "Room \<Rightarrow> bool" where
  "votes_ok r \<longleftrightarrow> distinct (map fst (Votes r))"

definition judge_ok :: "Room \<Rightarrow> bool" where
  "judge_ok r \<longleftrightarrow> (JudgeID r \<noteq> '''' \<longrightarrow> JudgeID r \<in> fst ` set (Players r))"

definition insider_ok :: "Room \<Rightarrow> bool" where
  "insider_ok r \<longleftrightarrow> (\<forall>(k, p) \<in> set (Players r). Role p = ''insider'' \<longrightarrow> k = InsiderID r)"

definition chans_ok :: "World \<Rightarrow> bool" where
  "chans_ok w \<longleftrightarrow>
     (\<forall>c \<in> closedChans w. c < nchan w) \<and>
     (case timerCancel (room w) of None \<Rightarrow> True
      | Some c \<Rightarrow> c < nchan w \<and> c \<notin> closedChans w)"

definition room_ok :: "Room \<Rightarrow> bool" where
  "room_ok r \<longleftrightarrow> players_ok r \<and> votes_ok r \<and> judge_ok r \<and> insider_ok r"

definition world_ok :: "World \<Rightarrow> bool" where
  "world_ok w \<longleftrightarrow> room_ok (room w) \<and> chans_ok w"

definition lastVotesOf :: "(string \<times> string) list \<Rightarrow> VotePair list" where
  "lastVotesOf votes =
     map (\<lambda>(voterID, targetID). \<lparr>VoterID = voterID, TargetID = targetID\<rparr>) votes"

definition closedAfterCancel :: "World \<Rightarrow> chan set" where
  "closedAfterCancel w =
     (case timerCancel (room w) of None \<Rightarrow> closedChans w | Some c \<Rightarrow> insert c (closedChans w))"

definition scoreOf :: "Room \<Rightarrow> string \<Rightarrow> go_int option" where
  "scoreOf r k = map_option Score (map_of (Players r) k)"

definition validVote :: "string \<Rightarrow> ClientMessage \<Rightarrow> Room \<Rightarrow> bool" where
  "validVote playerID msg r \<longleftrightarrow>
     mSuspectID msg \<noteq> [] \<and> State r = ''voting'' \<and> playerID \<noteq> JudgeID r \<and>
     \<not> isBlocked r playerID \<and> mSuspectID msg \<noteq> playerID \<and>
     map_of (Players r) (mSuspectID msg) \<noteq> None"

definition recordVote :: "string \<Rightarrow> ClientMessage \<Rightarrow> Room \<Rightarrow> Room" where
  "recordVote playerID msg r =
     r\<lparr>Votes := AList.update playerID (mSuspectID msg) (Votes r),
       Voted := (Voted r)(playerID \<mapsto> True)\<rparr>"

definition voteComplete :: "Room \<Rightarrow> bool" where
  "voteComplete r \<longleftrightarrow> int (length (Votes r)) \<ge> eligibleCount r \<and> eligibleCount r > 0"

definition zeroMessage :: ClientMessage where
  "zeroMessage = \<lparr>mType = [], mTargetID = [], mDuration = 0, mSuspectID = [],
     mSecretWord = [], mText = [], mChatEnabled = None\<rparr>"

definition mkPlayer :: "string \<Rightarrow> string \<Rightarrow> string \<Rightarrow> conn \<Rightarrow> string \<times> Player" where
  "mkPlayer k name role c = (k, \<lparr>ID = k, Name = name, Score = 0, Role = role, Conn = Some c\<rparr>)"

definition lobby_trace :: "op list" where
  "lobby_trace =
     [OpJoin ''j'' ''Judy'' 0, OpJoin ''a'' ''Ann'' 1, OpJoin ''b'' ''Bob'' 2,
      OpJoin ''c'' ''Cy'' 3, OpJoin ''x'' ''Xena'' 4, OpJoin ''y'' ''Yves'' 5,
      OpSetJudge (zeroMessage\<lparr>mTargetID := ''j''\<rparr>)]"

definition lobby_world :: World where
  "lobby_world =
     \<lparr>room = (newRoom ''R'')\<lparr>HostID := ''j'', JudgeID := ''j'',
        Players := [mkPlayer ''j'' ''Judy'' [] 0, mkPlayer ''a'' ''Ann'' [] 1,
                    mkPlayer ''b'' ''Bob'' [] 2, mkPlayer ''c'' ''Cy'' [] 3,
                    mkPlayer ''x'' ''Xena'' [] 4, mkPlayer ''y'' ''Yves'' [] 5]\<rparr>,
      closedChans = {}, nchan = 0, goroutines = []\<rparr>"

definition voting_trace :: "op list" where
  "voting_trace = lobby_trace @
     [OpStartRoundLocked (zeroMessage\<lparr>mSecretWord := ''apple''\<rparr>),
      OpAssignRoles 3, OpStartCountdownTimer RoundDurationSeconds,
      OpGuessCorrectLocked, OpStartVoteTimer VoteDurationSeconds,
      OpVoteInsiderLocked ''a'' (zeroMessage\<lparr>mSuspectID := ''x''\<rparr>),
      OpVoteInsiderLocked ''b'' (zeroMessage\<lparr>mSuspectID := ''x''\<rparr>),
      OpVoteInsiderLocked ''c'' (zeroMessage\<lparr>mSuspectID := ''y''\<rparr>)]"

definition voting_world :: World where
  "voting_world =
     \<lparr>room = (newRoom ''R'')\<lparr>State := ''voting'', HostID := ''j'', JudgeID := ''j'',
        InsiderID := ''x'', Timer := 90, SecretWord := ''apple'',
        Voted := [''a'' \<mapsto> True, ''b'' \<mapsto> True, ''c'' \<mapsto> True],
        Players := [mkPlayer ''j'' ''Judy'' ''judge'' 0, mkPlayer ''a'' ''Ann'' ''normal'' 1,
                    mkPlayer ''b'' ''Bob'' ''normal'' 2, mkPlayer ''c'' ''Cy'' ''normal'' 3,
                    mkPlayer ''x'' ''Xena'' ''insider'' 4, mkPlayer ''y'' ''Yves'' ''normal'' 5],
        Votes := [(''a'', ''x''), (''b'', ''x''), (''c'', ''y'')],
        timerRunning := True, timerCancel := Some 1\<rparr>,
      closedChans = {0}, nchan = 2, goroutines = [(CountdownTimer, 0), (VoteTimer, 1)]\<rparr>"

definition abandoned_trace :: "op list" where
  "abandoned_trace =
     [OpJoin ''j'' ''Judy'' 0, OpJoin ''a'' ''Ann'' 1, OpJoin ''b'' ''Bob'' 2,
      OpJoin ''c'' ''Cy'' 3, OpSetJudge (zeroMessage\<lparr>mTargetID := ''j''\<rparr>),
      OpStartRoundLocked (zeroMessage\<lparr>mSecretWord := ''apple''\<rparr>),
      OpAssignRoles 2, OpStartCountdownTimer RoundDurationSeconds,
      OpGuessCorrectLocked, OpStartVoteTimer VoteDurationSeconds,
      OpVoteInsiderLocked ''a'' (zeroMessage\<lparr>mSuspectID := ''b''\<rparr>),
      OpLeave 0 ''a'', OpLeave 0 ''b'', OpLeave 0 ''c'', OpLeave 0 ''j'']"

definition abandoned_world :: World where
  "abandoned_world =
     \<lparr>room = (newRoom ''R'')\<lparr>State := ''voting'', InsiderID := ''c'', Timer := 90,
        SecretWord := ''apple'', Voted := [''a'' \<mapsto> True],
        Votes := [(''a'', ''b'')], timerRunning := True, timerCancel := Some 1\<rparr>,
      closedChans = {0}, nchan = 2, goroutines = [(CountdownTimer, 0), (VoteTimer, 1)]\<rparr>"

definition eligibleVoters :: "Room \<Rightarrow> string set" where
  "eligibleVoters r = {k \<in> fst ` set (Players r). k \<noteq> JudgeID r \<and> \<not> isBlocked r k}"

definition countdown_trace :: "op list" where
  "countdown_trace = lobby_trace @
     [OpStartRoundLocked (zeroMessage\<lparr>mSecretWord := ''apple''\<rparr>),
      OpAssignRoles 3, OpStartCountdownTimer RoundDurationSeconds]"

definition countdown_world :: World where
  "countdown_world =
     \<lparr>room = (newRoom ''R'')\<lparr>State := ''countdown'', HostID := ''j'', JudgeID := ''j'',
        InsiderID := ''x'', Timer := 300, SecretWord := ''apple'',
        Players := [mkPlayer ''j'' ''Judy'' ''judge'' 0, mkPlayer ''a'' ''Ann'' ''normal'' 1,
                    mkPlayer ''b'' ''Bob'' ''normal'' 2, mkPlayer ''c'' ''Cy'' ''normal'' 3,
                    mkPlayer ''x'' ''Xena'' ''insider'' 4, mkPlayer ''y'' ''Yves'' ''normal'' 5],
        timerRunning := True, timerCancel := Some 0\<rparr>,
      closedChans = {}, nchan = 1, goroutines = [(CountdownTimer, 0)]\<rparr>"

section \<open>Counting votes\<close>

lemma countOf_update: "countOf (AList.update k v c) t = (if t = k then v else countOf c t)"
  by (simp add: countOf_def update_conv')

lemma fold_count_countOf:
  "countOf (fold countStep votes c) t = countOf c t + votesFor votes t"
proof (induction votes arbitrary: c)
  case Nil show ?case by (simp add: votesFor_def)
next
  case (Cons a votes)
  obtain v s where a: "a = (v, s)" by (cases a)
  show ?case using Cons[of "countStep a c"] 
    by (simp add: a countStep_def countOf_update votesFor_def)
qed

lemma fold_count_keys:
  "fst ` set (fold countStep votes c) = fst ` set c \<union> snd ` set votes"
proof (induction votes arbitrary: c)
  case Nil show ?case by simp
next
  case (Cons a votes)
  obtain v s where a: "a = (v, s)" by (cases a)
  have "fst ` set (countStep a c) = insert s (fst ` set c)"
    using dom_update[of s _ c] by (simp add: a countStep_def dom_map_of_conv_image_fst)
  then show ?case using Cons[of "countStep a c"] by (auto simp: a)
qed

lemma fold_count_distinct:
  "distinct (map fst c) \<Longrightarrow> distinct (map fst (fold countStep votes c))"
proof (induction votes arbitrary: c)
  case Nil then show ?case by simp
next
  case (Cons a votes)
  obtain v s where a: "a = (v, s)" by (cases a)
  have "distinct (map fst (countStep a c))"
    using Cons.prems by (simp add: a countStep_def distinct_update)
  then show ?case using Cons.IH by simp
qed

lemma countVotes_fold: "countVotes votes = fold countStep votes []"
  by (simp add: countVotes_def countStep_def)

lemma countVotes_distinct: "distinct (map fst (countVotes votes))"
  by (simp add: countVotes_fold fold_count_distinct)

lemma countVotes_keys: "fst ` set (countVotes votes) = snd ` set votes"
  by (simp add: countVotes_fold fold_count_keys)

lemma countVotes_countOf: "countOf (countVotes votes) t = votesFor votes t"
  by (simp add: countVotes_fold fold_count_countOf) (simp add: countOf_def)

lemma countVotes_entry:
  "(t, c) \<in> set (countVotes votes) \<longleftrightarrow> t \<in> snd ` set votes \<and> c = votesFor votes t"
proof
  assume h: "(t, c) \<in> set (countVotes votes)"
  then have "map_of (countVotes votes) t = Some c"
    using countVotes_distinct by simp
  then have "countOf (countVotes votes) t = c" by (simp add: countOf_def)
  moreover have "t \<in> fst ` set (countVotes votes)" using h by force
  ultimately show "t \<in> snd ` set votes \<and> c = votesFor votes t"
    by (simp add: countVotes_countOf countVotes_keys)
next
  assume h: "t \<in> snd ` set votes \<and> c = votesFor votes t"
  then have "t \<in> fst ` set (countVotes votes)" by (simp add: countVotes_keys)
  then obtain c' where c': "(t, c') \<in> set (countVotes votes)" by auto
  then have "map_of (countVotes votes) t = Some c'" using countVotes_distinct by simp
  then have "countOf (countVotes votes) t = c'" by (simp add: countOf_def)
  then show "(t, c) \<in> set (countVotes votes)" using c' h by (simp add: countVotes_countOf)
qed

lemma fold_max:
  "fold (\<lambda>(k, c) maxVote. if c > maxVote then c else maxVote) count (m::int)
     = Max (insert m (snd ` set count))"
proof (induction count arbitrary: m)
  case Nil show ?case by simp
next
  case (Cons a count)
  obtain k c where a: "a = (k, c)" by (cases a)
  let ?f = "\<lambda>(k, c) maxVote. if c > maxVote then c else (maxVote::int)"
  have "fold ?f (a # count) m = fold ?f count (max m c)"
    by (auto simp: a max_def)
  also have "\<dots> = Max (insert (max m c) (snd ` set count))" by (rule Cons)
  also have "\<dots> = Max (insert m (insert c (snd ` set count)))"
    by (cases "set count = {}") (simp_all add: max.assoc)
  finally show ?case by (simp add: a)
qed

lemma maxVoteOf_Max: "maxVoteOf count = Max (insert (- 1) (snd ` set count))"
  by (simp add: maxVoteOf_def fold_max)

lemma votesFor_pos: "t \<in> snd ` set votes \<Longrightarrow> 0 < votesFor votes t"
  by (auto simp: votesFor_def filter_empty_conv)

lemma set_topOf: "set (topOf (countVotes votes)) = tiedTargets votes"
proof -
  let ?C = "countVotes votes"
  let ?M = "maxVoteOf ?C"
  have fin: "finite (insert (- 1) (snd ` set ?C))" by simp
  have ge: "\<And>t. t \<in> snd ` set votes \<Longrightarrow> votesFor votes t \<le> ?M"
  proof -
    fix t assume "t \<in> snd ` set votes"
    then have "(t, votesFor votes t) \<in> set ?C" by (simp add: countVotes_entry)
    then have "votesFor votes t \<in> insert (- 1) (snd ` set ?C)" by force
    with fin show "votesFor votes t \<le> ?M" unfolding maxVoteOf_Max by (rule Max_ge)
  qed
  have inM: "?M \<in> insert (- 1) (snd ` set ?C)"
    unfolding maxVoteOf_Max by (rule Max_in) auto
  show ?thesis
  proof (rule set_eqI)
    fix t
    show "t \<in> set (topOf ?C) \<longleftrightarrow> t \<in> tiedTargets votes"
    proof
      assume "t \<in> set (topOf ?C)"
      then have "(t, ?M) \<in> set ?C" by (auto simp: topOf_def)
      then have "t \<in> snd ` set votes" "?M = votesFor votes t" by (simp_all add: countVotes_entry)
      then show "t \<in> tiedTargets votes" using ge by (auto simp: tiedTargets_def)
    next
      assume h: "t \<in> tiedTargets votes"
      then have t: "t \<in> snd ` set votes" and
        mx: "\<forall>t' \<in> snd ` set votes. votesFor votes t' \<le> votesFor votes t"
        by (auto simp: tiedTargets_def)
      have "?M \<le> votesFor votes t"
      proof (cases "?M = - 1")
        case True then show ?thesis using votesFor_pos[OF t] by simp
      next
        case False
        then obtain k where "(k, ?M) \<in> set ?C" using inM by auto
        then have "k \<in> snd ` set votes" "?M = votesFor votes k" by (simp_all add: countVotes_entry)
        then show ?thesis using mx by auto
      qed
      then have "?M = votesFor votes t" using ge[OF t] by simp
      then have "(t, ?M) \<in> set ?C" using t by (simp add: countVotes_entry)
      then show "t \<in> set (topOf ?C)" by (force simp: topOf_def)
    qed
  qed
qed

lemma distinct_topOf: "distinct (topOf (countVotes votes))"
  unfolding topOf_def using countVotes_distinct by (simp add: distinct_map_filter)

lemma length_topOf: "length (topOf (countVotes votes)) = card (tiedTargets votes)"
  using distinct_card[OF distinct_topOf, of votes] by (simp add: set_topOf)

lemma tiedTargets_nonempty: "votes \<noteq> [] \<Longrightarrow> tiedTargets votes \<noteq> {}"
proof -
  assume ne: "votes \<noteq> []"
  define T where "T = snd ` set votes"
  have fin: "finite T" and "T \<noteq> {}" using ne by (auto simp: T_def)
  then have "Max (votesFor votes ` T) \<in> votesFor votes ` T" by (intro Max_in) auto
  then obtain t where t: "t \<in> T" "votesFor votes t = Max (votesFor votes ` T)" by auto
  have "\<forall>t' \<in> T. votesFor votes t' \<le> votesFor votes t"
    using t(2) fin by simp
  then show ?thesis using t(1) by (auto simp: tiedTargets_def T_def)
qed

lemma set_update_subset: "set (AList.update k v al) \<subseteq> insert (k, v) (set al)"
  by (induction al) auto

lemma set_delete_subset: "set (AList.delete k al) \<subseteq> set al"
  by (auto simp: AList.delete_eq)

lemma andThen_Inr [simp]: "andThen (Inr x) f = f x"
  by (simp add: andThen_def)

lemma andThen_Inl [simp]: "andThen (Inl p) f = Inl p"
  by (simp add: andThen_def)

lemma andThen_eq_Inr: "andThen m f = Inr y \<longleftrightarrow> (\<exists>x. m = Inr x \<and> f x = Inr y)"
  by (cases m) auto

lemma ball_update:
  "\<forall>x \<in> set al. P x \<Longrightarrow> P (k, v) \<Longrightarrow> \<forall>x \<in> set (AList.update k v al). P x"
  using set_update_subset[of k v al] by blast

lemma ball_delete: "\<forall>x \<in> set al. P x \<Longrightarrow> \<forall>x \<in> set (AList.delete k al). P x"
  by (simp add: AList.delete_eq)

lemma keys_delete: "fst ` set (AList.delete k al) = fst ` set al - {k}"
  by (force simp: AList.delete_eq)

lemma key_of_lookup: "map_of al k = Some v \<Longrightarrow> k \<in> fst ` set al"
  by (drule map_of_SomeD) force

lemma players_ok_update:
  "players_ok r \<Longrightarrow> ID p = k \<Longrightarrow> Players r' = AList.update k p (Players r) \<Longrightarrow> players_ok r'"
  unfolding players_ok_def
  using ball_update[of "Players r" "\<lambda>(k, p). ID p = k" k p] by (simp add: distinct_update)

lemma players_ok_delete:
  "players_ok r \<Longrightarrow> Players r' = AList.delete k (Players r) \<Longrightarrow> players_ok r'"
  unfolding players_ok_def
  using ball_delete[of "Players r" "\<lambda>(k, p). ID p = k" k] by (simp add: distinct_delete)

lemma players_ok_map:
  assumes "players_ok r" and "Players r' = map (\<lambda>(k, p). (k, f k p)) (Players r)"
    and "\<And>k p. ID (f k p) = ID p"
  shows "players_ok r'"
proof -
  have "map fst (Players r') = map fst (Players r)"
    by (simp add: assms(2) case_prod_unfold comp_def)
  moreover have "\<forall>(k, p) \<in> set (Players r'). ID p = k"
    using assms unfolding players_ok_def by auto
  ultimately show ?thesis using assms(1) by (simp add: players_ok_def)
qed

lemma insider_ok_update:
  "insider_ok r \<Longrightarrow> InsiderID r' = InsiderID r \<Longrightarrow> Role p \<noteq> ''insider'' \<Longrightarrow>
   Players r' = AList.update k p (Players r) \<Longrightarrow> insider_ok r'"
  unfolding insider_ok_def
  using ball_update[of "Players r" "\<lambda>(k, p). Role p = ''insider'' \<longrightarrow> k = InsiderID r" k p]
  by simp

lemma insider_ok_delete:
  "insider_ok r \<Longrightarrow> InsiderID r' = InsiderID r \<Longrightarrow>
   Players r' = AList.delete k (Players r) \<Longrightarrow> insider_ok r'"
  unfolding insider_ok_def
  using ball_delete[of "Players r" "\<lambda>(k, p). Role p = ''insider'' \<longrightarrow> k = InsiderID r" k]
  by simp

lemma insider_ok_none:
  "\<forall>(k, p) \<in> set (Players r'). Role p \<noteq> ''insider'' \<Longrightarrow> insider_ok r'"
  unfolding insider_ok_def by auto

lemma judge_ok_keys:
  "judge_ok r \<Longrightarrow> JudgeID r' = JudgeID r \<Longrightarrow>
   fst ` set (Players r) \<subseteq> fst ` set (Players r') \<Longrightarrow> judge_ok r'"
  unfolding judge_ok_def by auto

lemma judge_ok_delete:
  "judge_ok r \<Longrightarrow> Players r' = AList.delete k (Players r) \<Longrightarrow>
   JudgeID r' = (if JudgeID r = k then '''' else JudgeID r) \<Longrightarrow> judge_ok r'"
  unfolding judge_ok_def by (auto simp: keys_delete)

lemma room_ok_join: "room_ok r \<Longrightarrow> room_ok (ws_join playerID playerName c r)"
proof -
  assume ok: "room_ok r"
  then have pk: "players_ok r" and vk: "votes_ok r" and jk: "judge_ok r" and ik: "insider_ok r"
    by (simp_all add: room_ok_def)
  let ?r' = "ws_join playerID playerName c r"
  let ?p = "\<lparr>ID = playerID, Name = playerName, Score = 0, Role = '''', Conn = Some c\<rparr>"
  have P: "Players ?r' = AList.update playerID ?p (Players r)"
    and V: "Votes ?r' = Votes r" and J: "JudgeID ?r' = JudgeID r"
    and I: "InsiderID ?r' = InsiderID r"
    by (simp_all add: ws_join_def Let_def)
  have "players_ok ?r'" by (rule players_ok_update[OF pk _ P]) simp
  moreover have "votes_ok ?r'" using vk V by (simp add: votes_ok_def)
  moreover have "judge_ok ?r'"
    by (rule judge_ok_keys[OF jk J]) (auto simp: P dom_update)
  moreover have "insider_ok ?r'"
    by (rule insider_ok_update[OF ik I _ P]) simp
  ultimately show ?thesis by (simp add: room_ok_def)
qed

lemma room_ok_leave: "room_ok r \<Longrightarrow> room_ok (ws_leave pick playerID r)"
proof -
  assume ok: "room_ok r"
  then have pk: "players_ok r" and vk: "votes_ok r" and jk: "judge_ok r" and ik: "insider_ok r"
    by (simp_all add: room_ok_def)
  let ?r' = "ws_leave pick playerID r"
  have P: "Players ?r' = AList.delete playerID (Players r)"
    and V: "Votes ?r' = Votes r"
    and J: "JudgeID ?r' = (if JudgeID r = playerID then '''' else JudgeID r)"
    and I: "InsiderID ?r' = InsiderID r"
    by (simp_all add: ws_leave_def Let_def)
  have "players_ok ?r'" by (rule players_ok_delete[OF pk P])
  moreover have "votes_ok ?r'" using vk V by (simp add: votes_ok_def)
  moreover have "judge_ok ?r'"
    by (rule judge_ok_delete[OF jk P J])
  moreover have "insider_ok ?r'"
    by (rule insider_ok_delete[OF ik I P])
  ultimately show ?thesis by (simp add: room_ok_def)
qed

lemma ws_kick_snd:
  "snd (ws_kick playerID msg r) = r \<or>
   snd (ws_kick playerID msg r) =
     (if JudgeID r = mTargetID msg then r\<lparr>JudgeID := []\<rparr> else r)
       \<lparr>Players := AList.delete (mTargetID msg) (Players r)\<rparr>"
  by (simp add: ws_kick_def Let_def split: option.split)

lemma room_ok_kick: "room_ok r \<Longrightarrow> room_ok (snd (ws_kick playerID msg r))"
proof -
  assume ok: "room_ok r"
  then have pk: "players_ok r" and vk: "votes_ok r" and jk: "judge_ok r" and ik: "insider_ok r"
    by (simp_all add: room_ok_def)
  let ?r' = "(if JudgeID r = mTargetID msg then r\<lparr>JudgeID := []\<rparr> else r)
       \<lparr>Players := AList.delete (mTargetID msg) (Players r)\<rparr>"
  have P: "Players ?r' = AList.delete (mTargetID msg) (Players r)"
    and V: "Votes ?r' = Votes r"
    and J: "JudgeID ?r' = (if JudgeID r = mTargetID msg then [] else JudgeID r)"
    and I: "InsiderID ?r' = InsiderID r"
    by simp_all
  have "players_ok ?r'" by (rule players_ok_delete[OF pk P])
  moreover have "votes_ok ?r'" using vk V by (simp add: votes_ok_def)
  moreover have "judge_ok ?r'" by (rule judge_ok_delete[OF jk P J])
  moreover have "insider_ok ?r'" by (rule insider_ok_delete[OF ik I P])
  ultimately have "room_ok ?r'" by (simp add: room_ok_def)
  then show ?thesis using ok ws_kick_snd[of playerID msg r] by auto
qed

lemma room_ok_frame:
  "room_ok r \<Longrightarrow> Players r' = Players r \<Longrightarrow> JudgeID r' = JudgeID r \<Longrightarrow>
   InsiderID r' = InsiderID r \<Longrightarrow> votes_ok r' \<Longrightarrow> room_ok r'"
  by (simp add: room_ok_def players_ok_def judge_ok_def insider_ok_def)

lemma room_ok_set_judge: "room_ok r \<Longrightarrow> room_ok (ws_set_judge msg r)"
proof (cases "map_of (Players r) (mTargetID msg)")
  case None
  then show "room_ok r \<Longrightarrow> room_ok (ws_set_judge msg r)" by (simp add: ws_set_judge_def)
next
  case (Some a)
  assume ok: "room_ok r"
  then have pk: "players_ok r" and vk: "votes_ok r" and jk: "judge_ok r" and ik: "insider_ok r"
    by (simp_all add: room_ok_def)
  have "judge_ok (ws_set_judge msg r)"
    using key_of_lookup[OF Some] by (simp add: ws_set_judge_def Some judge_ok_def)
  then show "room_ok (ws_set_judge msg r)"
    using ok by (simp add: room_ok_def players_ok_def votes_ok_def insider_ok_def
        ws_set_judge_def Some)
qed

lemma room_ok_set_chat_enabled: "room_ok r \<Longrightarrow> room_ok (snd (ws_set_chat_enabled playerID msg r))"
  by (rule room_ok_frame[of r])
     (auto simp: ws_set_chat_enabled_def room_ok_def votes_ok_def split: option.splits)

lemma room_ok_start_round_locked: "room_ok r \<Longrightarrow> room_ok (snd (start_round_locked msg r))"
  by (rule room_ok_frame[of r])
     (auto simp: start_round_locked_def Let_def room_ok_def votes_ok_def)

lemma room_ok_countdownTick: "room_ok r \<Longrightarrow> room_ok (fst (countdownTick r))"
  by (rule room_ok_frame[of r])
     (auto simp: countdownTick_def Let_def room_ok_def votes_ok_def)

lemma room_ok_voteTick_locked: "room_ok r \<Longrightarrow> room_ok (fst (voteTick_locked r))"
  by (rule room_ok_frame[of r])
     (auto simp: voteTick_locked_def Let_def room_ok_def votes_ok_def)

lemma countVotes_Nil_iff: "countVotes votes = [] \<longleftrightarrow> votes = []"
proof -
  have "set (countVotes votes) = {} \<longleftrightarrow> set votes = {}"
    using countVotes_keys[of votes] by (metis image_is_empty)
  then show ?thesis by simp
qed

lemma topOf_unique:
  assumes "tiedTargets votes = {x}"
  shows "topOf (countVotes votes) = [x]"
proof -
  have "length (topOf (countVotes votes)) = 1"
    using assms by (simp add: length_topOf)
  moreover have "set (topOf (countVotes votes)) = {x}"
    using assms by (simp add: set_topOf)
  ultimately show ?thesis
    by (cases "topOf (countVotes votes)") auto
qed

lemma fold_block:
  "fold (\<lambda>k b. b(k \<mapsto> True)) ks b0 = (\<lambda>k. if k \<in> set ks then Some True else b0 k)"
  by (induction ks arbitrary: b0) (auto simp: fun_eq_iff)

lemma tally_empty_room: "Players r = [] \<Longrightarrow> handleTallyVotes r = Inr r"
  by (simp add: handleTallyVotes_def)

lemma tally_no_votes:
  "Players r \<noteq> [] \<Longrightarrow> Votes r = [] \<Longrightarrow>
   handleTallyVotes r =
     Inr (r\<lparr>LastVotes := [], State := ''scoreboard'', Votes := [], Voted := Map.empty,
            BlockedVoters := Map.empty\<rparr>)"
  by (simp add: handleTallyVotes_def countVotes_def)

lemma tally_tie:
  assumes "Players r \<noteq> []" and "1 < card (tiedTargets (Votes r))"
  shows "handleTallyVotes r =
     Inr (r\<lparr>LastVotes := lastVotesOf (Votes r), State := ''voting'', Votes := [],
            Voted := Map.empty,
            BlockedVoters := (\<lambda>k. if k \<in> tiedTargets (Votes r) then Some True else None)\<rparr>)"
proof -
  have ne: "Votes r \<noteq> []" using assms(2) by (auto simp: tiedTargets_def)
  then have c: "countVotes (Votes r) \<noteq> []" by (simp add: countVotes_Nil_iff)
  have l: "1 < length (topOf (countVotes (Votes r)))" using assms(2) by (simp add: length_topOf)
  show ?thesis
    using assms(1) c l
    by (simp add: handleTallyVotes_def Let_def fold_block set_topOf lastVotesOf_def)
qed

lemma tally_unique:
  assumes "Players r \<noteq> []" and "tiedTargets (Votes r) = {x}"
  shows "handleTallyVotes r =
     Inr (r\<lparr>LastVotes := lastVotesOf (Votes r),
            Players :=
              (if x = InsiderID r then
                 map (\<lambda>(k, p). if ID p = InsiderID r \<or> ID p = JudgeID r then (k, p)
                                else (k, p\<lparr>Score := Score p + 1\<rparr>)) (Players r)
               else
                 (case map_of (Players r) (InsiderID r) of
                    Some ins \<Rightarrow>
                      AList.update (InsiderID r) (ins\<lparr>Score := Score ins + 2\<rparr>) (Players r)
                  | None \<Rightarrow> Players r)),
            State := ''scoreboard'', Votes := [], Voted := Map.empty,
            BlockedVoters := Map.empty\<rparr>)"
proof -
  have ne: "Votes r \<noteq> []" using assms(2) by (auto simp: tiedTargets_def)
  then have c: "countVotes (Votes r) \<noteq> []" by (simp add: countVotes_Nil_iff)
  have t: "topOf (countVotes (Votes r)) = [x]" by (rule topOf_unique[OF assms(2)])
  show ?thesis
    using assms(1) c
    by (simp add: handleTallyVotes_def Let_def t lastVotesOf_def split: option.split)
qed

lemma tally_cases:
  obtains (empty_room) "Players r = []"
  | (no_votes) "Players r \<noteq> []" "Votes r = []"
  | (tie) "Players r \<noteq> []" "1 < card (tiedTargets (Votes r))"
  | (unique) x where "Players r \<noteq> []" "tiedTargets (Votes r) = {x}"
proof (cases "Players r = []")
  case True then show ?thesis by (rule empty_room)
next
  case ne: False
  show ?thesis
  proof (cases "Votes r = []")
    case True with ne show ?thesis by (rule no_votes)
  next
    case False
    then have "tiedTargets (Votes r) \<noteq> {}" by (rule tiedTargets_nonempty)
    moreover have "finite (tiedTargets (Votes r))" by (simp add: tiedTargets_def)
    ultimately have "0 < card (tiedTargets (Votes r))" by (simp add: card_gt_0_iff)
    then consider "card (tiedTargets (Votes r)) = 1" | "1 < card (tiedTargets (Votes r))" by linarith
    then show ?thesis
    proof cases
      case 1
      then obtain x where "tiedTargets (Votes r) = {x}" by (auto simp: card_1_singleton_iff)
      with ne show ?thesis by (rule unique)
    next
      case 2 with ne show ?thesis by (rule tie)
    qed
  qed
qed

lemma tally_total: "\<exists>r'. handleTallyVotes r = Inr r'"
  by (cases r rule: tally_cases)
     (simp_all add: tally_empty_room tally_no_votes tally_tie tally_unique)

lemma keys_map_values:
  "map fst (map (\<lambda>(k, p). (k, f k p)) al) = map fst al"
  by (induction al) auto

lemma keys_update_present:
  "k \<in> fst ` set al \<Longrightarrow> fst ` set (AList.update k v al) = fst ` set al"
  by (auto simp: dom_update)

lemma entry_of_lookup: "map_of al k = Some v \<Longrightarrow> (k, v) \<in> set al"
  by (rule map_of_SomeD)

lemma assignRoles_shape:
  assumes ok: "players_ok r"
  obtains r2 where "players_ok r2" and "JudgeID r2 = JudgeID r" and "InsiderID r2 = []"
    and "Votes r2 = Votes r" and "fst ` set (Players r2) = fst ` set (Players r)"
    and "\<forall>(k, p) \<in> set (Players r2). Role p \<noteq> ''insider''"
    and "assignRoles rnd r = r2 \<or>
          (\<exists>k ins. (k, ins) \<in> set (Players r2) \<and> ID ins \<noteq> JudgeID r \<and>
             assignRoles rnd r =
               r2\<lparr>InsiderID := ID ins,
                  Players := AList.update k (ins\<lparr>Role := ''insider''\<rparr>) (Players r2),
                  State := ''assign_roles''\<rparr>)"
proof -
  define r1 where "r1 = r\<lparr>InsiderID := [],
                 Players := map (\<lambda>(k, p). (k, p\<lparr>Role := ''normal''\<rparr>)) (Players r)\<rparr>"
  define r2 where "r2 = (if JudgeID r1 \<noteq> [] then
                  (case map_of (Players r1) (JudgeID r1) of
                     Some j \<Rightarrow> r1\<lparr>Players :=
                       AList.update (JudgeID r1) (j\<lparr>Role := ''judge''\<rparr>) (Players r1)\<rparr>
                   | None \<Rightarrow> r1)
                else r1)"
  define cands where "cands = filter (\<lambda>(k, p). ID p \<noteq> JudgeID r2) (Players r2)"
  have p1: "players_ok r1"
    by (rule players_ok_map[OF ok, of r1 "\<lambda>k p. p\<lparr>Role := ''normal''\<rparr>"])
       (simp_all add: r1_def)
  have k1: "fst ` set (Players r1) = fst ` set (Players r)"
  proof -
    have "map fst (Players r1) = map fst (Players r)"
      using keys_map_values[of "\<lambda>k p. p\<lparr>Role := ''normal''\<rparr>" "Players r"]
      by (simp add: r1_def)
    then have "set (map fst (Players r1)) = set (map fst (Players r))" by simp
    then show ?thesis by simp
  qed
  have n1: "\<forall>(k, p) \<in> set (Players r1). Role p \<noteq> ''insider''"
    by (auto simp: r1_def)
  have f1: "JudgeID r1 = JudgeID r" "InsiderID r1 = []" "Votes r1 = Votes r"
    by (simp_all add: r1_def)
  have r2: "players_ok r2 \<and> JudgeID r2 = JudgeID r \<and> InsiderID r2 = [] \<and>
         Votes r2 = Votes r \<and> fst ` set (Players r2) = fst ` set (Players r) \<and>
         (\<forall>(k, p) \<in> set (Players r2). Role p \<noteq> ''insider'')"
  proof (cases "JudgeID r1 \<noteq> [] \<and> map_of (Players r1) (JudgeID r1) \<noteq> None")
    case False
    then have "r2 = r1" by (auto simp: r2_def)
    then show ?thesis using p1 k1 n1 f1 by simp
  next
    case True
    then obtain j where j: "map_of (Players r1) (JudgeID r1) = Some j" by auto
    then have r2eq: "r2 = r1\<lparr>Players :=
        AList.update (JudgeID r1) (j\<lparr>Role := ''judge''\<rparr>) (Players r1)\<rparr>"
      using True by (simp add: r2_def)
    have jin: "(JudgeID r1, j) \<in> set (Players r1)" by (rule entry_of_lookup[OF j])
    then have idj: "ID j = JudgeID r1" using p1 by (auto simp: players_ok_def)
    have "players_ok r2"
      by (rule players_ok_update[OF p1, of "j\<lparr>Role := ''judge''\<rparr>" "JudgeID r1"])
         (simp_all add: idj r2eq)
    moreover have "fst ` set (Players r2) = fst ` set (Players r)"
      using jin k1 by (simp add: r2eq dom_update) force
    moreover have "\<forall>(k, p) \<in> set (Players r2). Role p \<noteq> ''insider''"
      using ball_update[OF n1, of "JudgeID r1" "j\<lparr>Role := ''judge''\<rparr>"] by (simp add: r2eq)
    ultimately show ?thesis using f1 by (simp add: r2eq)
  qed
  have ar: "assignRoles rnd r =
      (if length cands = 0 then r2
       else (case cands ! (rnd mod length cands) of
               (k, ins) \<Rightarrow>
                 r2\<lparr>InsiderID := ID ins,
                    Players := AList.update k (ins\<lparr>Role := ''insider''\<rparr>) (Players r2),
                    State := ''assign_roles''\<rparr>))"
    unfolding assignRoles_def Let_def r1_def r2_def cands_def by (rule refl)
  have "assignRoles rnd r = r2 \<or>
          (\<exists>k ins. (k, ins) \<in> set (Players r2) \<and> ID ins \<noteq> JudgeID r \<and>
             assignRoles rnd r =
               r2\<lparr>InsiderID := ID ins,
                  Players := AList.update k (ins\<lparr>Role := ''insider''\<rparr>) (Players r2),
                  State := ''assign_roles''\<rparr>)"
  proof (cases "length cands = 0")
    case True then show ?thesis by (simp add: ar)
  next
    case False
    obtain k ins where ki: "cands ! (rnd mod length cands) = (k, ins)"
      by (cases "cands ! (rnd mod length cands)")
    have "rnd mod length cands < length cands" using False by simp
    then have "cands ! (rnd mod length cands) \<in> set cands" by (rule nth_mem)
    then have "(k, ins) \<in> set cands" by (simp add: ki)
    then have "(k, ins) \<in> set (Players r2)" "ID ins \<noteq> JudgeID r"
      using r2 by (auto simp: cands_def)
    then show ?thesis using False ki by (auto simp: ar)
  qed
  then show thesis using r2 by (intro that[of r2]) simp_all
qed

lemma room_ok_assignRoles: "room_ok r \<Longrightarrow> room_ok (assignRoles rnd r)"
proof -
  assume ok: "room_ok r"
  then have pk: "players_ok r" and vk: "votes_ok r" and jk: "judge_ok r"
    by (simp_all add: room_ok_def)
  obtain r2 where p2: "players_ok r2" and J2: "JudgeID r2 = JudgeID r"
    and I2: "InsiderID r2 = []" and V2: "Votes r2 = Votes r"
    and K2: "fst ` set (Players r2) = fst ` set (Players r)"
    and n2: "\<forall>(k, p) \<in> set (Players r2). Role p \<noteq> ''insider''"
    and ar: "assignRoles rnd r = r2 \<or>
          (\<exists>k ins. (k, ins) \<in> set (Players r2) \<and> ID ins \<noteq> JudgeID r \<and>
             assignRoles rnd r =
               r2\<lparr>InsiderID := ID ins,
                  Players := AList.update k (ins\<lparr>Role := ''insider''\<rparr>) (Players r2),
                  State := ''assign_roles''\<rparr>)"
    by (rule assignRoles_shape[OF pk, of rnd]) blast
  have v2: "votes_ok r2" using vk V2 by (simp add: votes_ok_def)
  have j2: "judge_ok r2" using jk J2 K2 by (simp add: judge_ok_def)
  have i2: "insider_ok r2" by (rule insider_ok_none[OF n2])
  from ar show ?thesis
  proof
    assume "assignRoles rnd r = r2"
    then show ?thesis using p2 v2 j2 i2 by (simp add: room_ok_def)
  next
    assume "\<exists>k ins. (k, ins) \<in> set (Players r2) \<and> ID ins \<noteq> JudgeID r \<and>
             assignRoles rnd r =
               r2\<lparr>InsiderID := ID ins,
                  Players := AList.update k (ins\<lparr>Role := ''insider''\<rparr>) (Players r2),
                  State := ''assign_roles''\<rparr>"
    then obtain k ins where kin: "(k, ins) \<in> set (Players r2)"
      and eq: "assignRoles rnd r =
               r2\<lparr>InsiderID := ID ins,
                  Players := AList.update k (ins\<lparr>Role := ''insider''\<rparr>) (Players r2),
                  State := ''assign_roles''\<rparr>" by blast
    let ?r3 = "assignRoles rnd r"
    have idk: "ID ins = k" using kin p2 by (auto simp: players_ok_def)
    have P3: "Players ?r3 = AList.update k (ins\<lparr>Role := ''insider''\<rparr>) (Players r2)"
      by (simp add: eq)
    have "players_ok ?r3" by (rule players_ok_update[OF p2 _ P3]) (simp add: idk)
    moreover have "votes_ok ?r3" using v2 by (simp add: eq votes_ok_def)
    moreover have "judge_ok ?r3"
      by (rule judge_ok_keys[OF j2]) (auto simp: eq dom_update)
    moreover have "insider_ok ?r3"
      unfolding insider_ok_def P3
      by (rule ball_update) (use n2 in \<open>auto simp: eq idk\<close>)
    ultimately show ?thesis by (simp add: room_ok_def)
  qed
qed

lemma assignRoles_insider:
  assumes pk: "players_ok r"
  shows "JudgeID (assignRoles rnd r) = JudgeID r \<and>
         fst ` set (Players (assignRoles rnd r)) = fst ` set (Players r) \<and>
         (InsiderID (assignRoles rnd r) \<noteq> [] \<longrightarrow>
            InsiderID (assignRoles rnd r) \<in> fst ` set (Players r) \<and>
            InsiderID (assignRoles rnd r) \<noteq> JudgeID r)"
proof -
  obtain r2 where p2: "players_ok r2" and J2: "JudgeID r2 = JudgeID r"
    and I2: "InsiderID r2 = []"
    and K2: "fst ` set (Players r2) = fst ` set (Players r)"
    and ar: "assignRoles rnd r = r2 \<or>
          (\<exists>k ins. (k, ins) \<in> set (Players r2) \<and> ID ins \<noteq> JudgeID r \<and>
             assignRoles rnd r =
               r2\<lparr>InsiderID := ID ins,
                  Players := AList.update k (ins\<lparr>Role := ''insider''\<rparr>) (Players r2),
                  State := ''assign_roles''\<rparr>)"
    by (rule assignRoles_shape[OF pk, of rnd]) blast
  from ar show ?thesis
  proof
    assume "assignRoles rnd r = r2"
    then show ?thesis using J2 I2 K2 by simp
  next
    assume "\<exists>k ins. (k, ins) \<in> set (Players r2) \<and> ID ins \<noteq> JudgeID r \<and>
             assignRoles rnd r =
               r2\<lparr>InsiderID := ID ins,
                  Players := AList.update k (ins\<lparr>Role := ''insider''\<rparr>) (Players r2),
                  State := ''assign_roles''\<rparr>"
    then obtain k ins where kin: "(k, ins) \<in> set (Players r2)"
      and nj: "ID ins \<noteq> JudgeID r"
      and eq: "assignRoles rnd r =
               r2\<lparr>InsiderID := ID ins,
                  Players := AList.update k (ins\<lparr>Role := ''insider''\<rparr>) (Players r2),
                  State := ''assign_roles''\<rparr>" by blast
    have idk: "ID ins = k" using kin p2 by (auto simp: players_ok_def)
    have kk: "k \<in> fst ` set (Players r2)" using kin by force
    then have "fst ` set (Players (assignRoles rnd r)) = fst ` set (Players r2)"
      by (simp add: eq keys_update_present)
    then show ?thesis using J2 K2 nj kk by (simp add: eq idk)
  qed
qed

lemma score_map_eq:
  "map (\<lambda>(k, p). if c p then (k, p) else (k, g p)) al =
   map (\<lambda>(k, p). (k, if c p then p else g p)) al"
  by (rule map_cong) auto

lemma map_of_map_values:
  "map_of (map (\<lambda>(k, p). (k, f k p)) al) k = map_option (f k) (map_of al k)"
  by (induction al) auto

lemma keys_set_map_values:
  "fst ` set (map (\<lambda>(k, p). (k, f k p)) al) = fst ` set al"
  by (induction al) auto

lemma insider_ok_map:
  assumes "insider_ok r" and "InsiderID r' = InsiderID r"
    and "Players r' = map (\<lambda>(k, p). (k, f k p)) (Players r)"
    and "\<And>k p. Role (f k p) = Role p"
  shows "insider_ok r'"
  using assms unfolding insider_ok_def by auto

lemma insider_ok_update_insider:
  assumes "insider_ok r" and "InsiderID r' = InsiderID r"
    and "Players r' = AList.update (InsiderID r) p (Players r)"
  shows "insider_ok r'"
  unfolding insider_ok_def assms(3)
  by (rule ball_update) (use assms in \<open>auto simp: insider_ok_def\<close>)

lemma room_ok_tally:
  assumes ok: "room_ok r" and t: "handleTallyVotes r = Inr r'"
  shows "room_ok r'"
proof -
  from ok have pk: "players_ok r" and vk: "votes_ok r" and jk: "judge_ok r" and ik: "insider_ok r"
    by (simp_all add: room_ok_def)
  show ?thesis
  proof (cases r rule: tally_cases)
    case empty_room
    then show ?thesis using t ok by (simp add: tally_empty_room)
  next
    case no_votes
    then have "r' = r\<lparr>LastVotes := [], State := ''scoreboard'', Votes := [], Voted := Map.empty,
            BlockedVoters := Map.empty\<rparr>" using t by (simp add: tally_no_votes)
    then show ?thesis by (intro room_ok_frame[OF ok]) (simp_all add: votes_ok_def)
  next
    case tie
    then have "r' = r\<lparr>LastVotes := lastVotesOf (Votes r), State := ''voting'', Votes := [],
            Voted := Map.empty,
            BlockedVoters := (\<lambda>k. if k \<in> tiedTargets (Votes r) then Some True else None)\<rparr>"
      using t by (simp add: tally_tie)
    then show ?thesis by (intro room_ok_frame[OF ok]) (simp_all add: votes_ok_def)
  next
    case (unique x)
    let ?f = "\<lambda>(k::string) p. if ID p = InsiderID r \<or> ID p = JudgeID r then p
                               else p\<lparr>Score := Score p + 1\<rparr>"
    have r': "r' = r\<lparr>LastVotes := lastVotesOf (Votes r),
            Players :=
              (if x = InsiderID r then
                 map (\<lambda>(k, p). if ID p = InsiderID r \<or> ID p = JudgeID r then (k, p)
                                else (k, p\<lparr>Score := Score p + 1\<rparr>)) (Players r)
               else
                 (case map_of (Players r) (InsiderID r) of
                    Some ins \<Rightarrow>
                      AList.update (InsiderID r) (ins\<lparr>Score := Score ins + 2\<rparr>) (Players r)
                  | None \<Rightarrow> Players r)),
            State := ''scoreboard'', Votes := [], Voted := Map.empty,
            BlockedVoters := Map.empty\<rparr>"
      using t unique by (simp add: tally_unique)
    have J: "JudgeID r' = JudgeID r" and I: "InsiderID r' = InsiderID r"
      and V: "votes_ok r'" by (simp_all add: r' votes_ok_def)
    consider (correct) "x = InsiderID r"
      | (absent) "x \<noteq> InsiderID r" "map_of (Players r) (InsiderID r) = None"
      | (present) ins where "x \<noteq> InsiderID r" "map_of (Players r) (InsiderID r) = Some ins"
      by (cases "map_of (Players r) (InsiderID r)") auto
    then show ?thesis
    proof cases
      case correct
      then have P: "Players r' = map (\<lambda>(k, p). (k, ?f k p)) (Players r)"
        by (simp add: r' score_map_eq)
      have "players_ok r'" by (rule players_ok_map[OF pk P]) simp
      moreover have "fst ` set (Players r') = fst ` set (Players r)"
        unfolding P by (rule keys_set_map_values)
      then have "judge_ok r'" by (intro judge_ok_keys[OF jk J]) simp
      moreover have "insider_ok r'" by (rule insider_ok_map[OF ik I P]) simp
      moreover note \<open>judge_ok r'\<close>
      ultimately show ?thesis using V by (simp add: room_ok_def)
    next
      case absent
      then have "Players r' = Players r" by (simp add: r')
      then show ?thesis using J I V by (intro room_ok_frame[OF ok])
    next
      case present
      then have P: "Players r' =
          AList.update (InsiderID r) (ins\<lparr>Score := Score ins + 2\<rparr>) (Players r)"
        by (simp add: r')
      have "ID ins = InsiderID r"
        using entry_of_lookup[OF present(2)] pk by (auto simp: players_ok_def)
      then have "players_ok r'" by (intro players_ok_update[OF pk _ P]) simp
      moreover have "judge_ok r'"
        by (rule judge_ok_keys[OF jk J]) (auto simp: P dom_update)
      moreover have "insider_ok r'" by (rule insider_ok_update_insider[OF ik I P])
      ultimately show ?thesis using V by (simp add: room_ok_def)
    qed
  qed
qed

lemma closeStored:
  assumes "chans_ok w"
  shows "(case timerCancel (room w) of None \<Rightarrow> Inr w | Some c \<Rightarrow> closeChan c w) =
         Inr (w\<lparr>closedChans := closedAfterCancel w\<rparr>)"
  using assms
  by (cases "timerCancel (room w)") (simp_all add: chans_ok_def closeChan_def closedAfterCancel_def)

lemma closedAfterCancel_bound:
  "chans_ok w \<Longrightarrow> \<forall>c \<in> closedAfterCancel w. c < nchan w"
  by (cases "timerCancel (room w)") (auto simp: chans_ok_def closedAfterCancel_def)

lemma startCountdownTimer_result:
  assumes "chans_ok w"
  shows "startCountdownTimer d w =
     Inr (w\<lparr>room := (room w)\<lparr>Timer := d, State := ''countdown'', timerRunning := True,
                 timerCancel := Some (nchan w), RoundEndByTimeout := False,
                 BlockedVoters := Map.empty, Voted := Map.empty, LastVotes := []\<rparr>,
            closedChans := closedAfterCancel w, nchan := Suc (nchan w),
            goroutines := goroutines w @ [(CountdownTimer, nchan w)]\<rparr>)"
  by (simp add: startCountdownTimer_def closeStored[OF assms] Let_def)

lemma startVoteTimer_result:
  assumes "chans_ok w"
  shows "startVoteTimer d w =
     Inr (w\<lparr>room := (room w)\<lparr>Timer := d, State := ''voting'', timerRunning := True,
                 timerCancel := Some (nchan w)\<rparr>,
            closedChans := closedAfterCancel w, nchan := Suc (nchan w),
            goroutines := goroutines w @ [(VoteTimer, nchan w)]\<rparr>)"
  by (simp add: startVoteTimer_def closeStored[OF assms] Let_def)

lemma stopRunningTimer_result:
  assumes "chans_ok w"
  shows "stopRunningTimer w =
     Inr (if timerRunning (room w) then
            w\<lparr>room := (room w)\<lparr>timerRunning := False, timerCancel := None\<rparr>,
              closedChans := closedAfterCancel w\<rparr>
          else w)"
proof (cases "timerCancel (room w)")
  case None
  then have "(room w)\<lparr>timerRunning := False, timerCancel := None\<rparr> =
             (room w)\<lparr>timerRunning := False\<rparr>" by simp
  then show ?thesis using None
    by (simp add: stopRunningTimer_def closedAfterCancel_def)
next
  case (Some c)
  then show ?thesis using assms
    by (simp add: stopRunningTimer_def closedAfterCancel_def closeChan_def chans_ok_def)
qed

lemma handleNextRound_result:
  assumes "chans_ok w"
  shows "handleNextRound w =
     Inr (w\<lparr>room := (room w)\<lparr>
                 Players := map (\<lambda>(k, p). (k, p\<lparr>Role := []\<rparr>)) (Players (room w)),
                 InsiderID := [], Timer := 0, timerRunning := False, timerCancel := None,
                 State := ''lobby'', Votes := [], RoundEndByTimeout := False,
                 BlockedVoters := Map.empty, Voted := Map.empty, LastVotes := []\<rparr>,
            closedChans := closedAfterCancel w\<rparr>)"
  by (simp add: handleNextRound_def closeStored[OF assms])

lemma guessCorrect_locked_result:
  assumes "chans_ok w"
  shows "guessCorrect_locked w =
     Inr (if timerRunning (room w) then
            w\<lparr>room := (room w)\<lparr>timerRunning := False, timerCancel := None,
                   RoundEndByTimeout := False, State := ''voting'', Votes := [],
                   Voted := Map.empty, BlockedVoters := Map.empty, LastVotes := []\<rparr>,
              closedChans := closedAfterCancel w\<rparr>
          else
            w\<lparr>room := (room w)\<lparr>RoundEndByTimeout := False, State := ''voting'', Votes := [],
                   Voted := Map.empty, BlockedVoters := Map.empty, LastVotes := []\<rparr>\<rparr>)"
  by (simp add: guessCorrect_locked_def stopRunningTimer_result[OF assms])

text \<open>Each of these keeps the channels in order.\<close>

lemma chans_ok_fresh:
  assumes "chans_ok w" and "timerCancel r' = Some (nchan w)"
  shows "chans_ok (w\<lparr>room := r', closedChans := closedAfterCancel w, nchan := Suc (nchan w),
                    goroutines := g\<rparr>)"
  using assms closedAfterCancel_bound[OF assms(1)]
  by (auto simp: chans_ok_def less_Suc_eq)

lemma chans_ok_cleared:
  assumes "chans_ok w" and "timerCancel r' = None"
  shows "chans_ok (w\<lparr>room := r', closedChans := closedAfterCancel w\<rparr>)"
  using assms closedAfterCancel_bound[OF assms(1)]
  by (auto simp: chans_ok_def)

lemma chans_ok_room:
  assumes "chans_ok w" and "timerCancel r' = timerCancel (room w)"
  shows "chans_ok (w\<lparr>room := r'\<rparr>)"
  using assms by (simp add: chans_ok_def split: option.splits)

lemma vote_locked_invalid:
  "\<not> validVote playerID msg (room w) \<Longrightarrow>
   \<exists>e. vote_insider_locked playerID msg w = Inr (Some e, False, w)"
  by (auto simp: validVote_def vote_insider_locked_def Let_def)

lemma vote_locked_valid:
  assumes "validVote playerID msg (room w)" and "chans_ok w"
  shows "vote_insider_locked playerID msg w =
     (if voteComplete (recordVote playerID msg (room w)) then
        Inr (None, True,
             if timerRunning (room w) then
               w\<lparr>room := (recordVote playerID msg (room w))
                          \<lparr>timerRunning := False, timerCancel := None\<rparr>,
                 closedChans := closedAfterCancel w\<rparr>
             else w\<lparr>room := recordVote playerID msg (room w)\<rparr>)
      else Inr (None, False, w\<lparr>room := recordVote playerID msg (room w)\<rparr>))"
proof -
  let ?r1 = "recordVote playerID msg (room w)"
  have c: "chans_ok (w\<lparr>room := ?r1\<rparr>)"
    by (rule chans_ok_room[OF assms(2)]) (simp add: recordVote_def)
  have ca: "closedAfterCancel (w\<lparr>room := ?r1\<rparr>) = closedAfterCancel w"
    by (simp add: closedAfterCancel_def recordVote_def split: option.split)
  have tr: "timerRunning ?r1 = timerRunning (room w)" by (simp add: recordVote_def)
  have "vote_insider_locked playerID msg w =
     (if voteComplete ?r1 then
        andThen (stopRunningTimer (w\<lparr>room := ?r1\<rparr>)) (\<lambda>w1. Inr (None, True, w1))
      else Inr (None, False, w\<lparr>room := ?r1\<rparr>))"
  proof -
    from assms(1) obtain t where t: "map_of (Players (room w)) (mSuspectID msg) = Some t"
      by (auto simp: validVote_def)
    show ?thesis using assms(1) t
      by (simp add: validVote_def vote_insider_locked_def Let_def recordVote_def voteComplete_def)
  qed
  then show ?thesis
    by (simp add: stopRunningTimer_result[OF c] ca tr)
qed

lemma tally_frame:
  assumes t: "handleTallyVotes r = Inr r'"
  shows "\<exists>lv ps st vs vd bl.
           r' = r\<lparr>LastVotes := lv, Players := ps, State := st, Votes := vs, Voted := vd,
                  BlockedVoters := bl\<rparr>"
proof (cases r rule: tally_cases)
  case empty_room
  with t have "r' = r" by (simp add: tally_empty_room)
  then have "r' = r\<lparr>LastVotes := LastVotes r, Players := Players r, State := State r,
      Votes := Votes r, Voted := Voted r, BlockedVoters := BlockedVoters r\<rparr>" by simp
  then show ?thesis by blast
next
  case no_votes
  with t have "r' = r\<lparr>LastVotes := [], State := ''scoreboard'', Votes := [],
      Voted := Map.empty, BlockedVoters := Map.empty\<rparr>" by (simp add: tally_no_votes)
  then have "r' = r\<lparr>LastVotes := [], Players := Players r, State := ''scoreboard'',
      Votes := [], Voted := Map.empty, BlockedVoters := Map.empty\<rparr>" by simp
  then show ?thesis by blast
next
  case tie
  with t have "r' = r\<lparr>LastVotes := lastVotesOf (Votes r), State := ''voting'', Votes := [],
      Voted := Map.empty,
      BlockedVoters := (\<lambda>k. if k \<in> tiedTargets (Votes r) then Some True else None)\<rparr>"
    by (simp add: tally_tie)
  then have "r' = r\<lparr>LastVotes := lastVotesOf (Votes r), Players := Players r,
      State := ''voting'', Votes := [], Voted := Map.empty,
      BlockedVoters := (\<lambda>k. if k \<in> tiedTargets (Votes r) then Some True else None)\<rparr>"
    by simp
  then show ?thesis by blast
next
  case (unique x)
  with t show ?thesis unfolding tally_unique[OF unique] by blast
qed

lemma tally_timer:
  assumes "handleTallyVotes r = Inr r'"
  shows "timerCancel r' = timerCancel r \<and> timerRunning r' = timerRunning r \<and> Timer r' = Timer r"
proof -
  obtain lv ps st vs vd bl where
    "r' = r\<lparr>LastVotes := lv, Players := ps, State := st, Votes := vs, Voted := vd,
                  BlockedVoters := bl\<rparr>"
    using tally_frame[OF assms] by blast
  then show ?thesis by simp
qed

lemma timerCancel_assignRoles: "timerCancel (assignRoles rnd r) = timerCancel r"
proof -
  let ?r1 = "r\<lparr>InsiderID := [],
                 Players := map (\<lambda>(k, p). (k, p\<lparr>Role := ''normal''\<rparr>)) (Players r)\<rparr>"
  let ?r2 = "(if JudgeID ?r1 \<noteq> [] then
                  (case map_of (Players ?r1) (JudgeID ?r1) of
                     Some j \<Rightarrow> ?r1\<lparr>Players :=
                       AList.update (JudgeID ?r1) (j\<lparr>Role := ''judge''\<rparr>) (Players ?r1)\<rparr>
                   | None \<Rightarrow> ?r1)
                else ?r1)"
  let ?cands = "filter (\<lambda>(k, p). ID p \<noteq> JudgeID ?r2) (Players ?r2)"
  have t2: "timerCancel ?r2 = timerCancel r"
    by (cases "map_of (Players ?r1) (JudgeID ?r1)") simp_all
  have ar: "assignRoles rnd r =
      (if length ?cands = 0 then ?r2
       else (case ?cands ! (rnd mod length ?cands) of
               (k, ins) \<Rightarrow>
                 ?r2\<lparr>InsiderID := ID ins,
                    Players := AList.update k (ins\<lparr>Role := ''insider''\<rparr>) (Players ?r2),
                    State := ''assign_roles''\<rparr>))"
    unfolding assignRoles_def Let_def by (rule refl)
  show ?thesis
  proof (cases "length ?cands = 0")
    case True
    then have "assignRoles rnd r = ?r2" unfolding ar by (rule if_P)
    then have "timerCancel (assignRoles rnd r) = timerCancel ?r2" by (rule arg_cong)
    then show ?thesis using t2 by (rule trans)
  next
    case False
    obtain k ins where ki: "?cands ! (rnd mod length ?cands) = (k, ins)"
      by (cases "?cands ! (rnd mod length ?cands)")
    have "assignRoles rnd r = ?r2\<lparr>InsiderID := ID ins,
                    Players := AList.update k (ins\<lparr>Role := ''insider''\<rparr>) (Players ?r2),
                    State := ''assign_roles''\<rparr>"
      unfolding ar if_not_P[OF False] ki by simp
    then have "timerCancel (assignRoles rnd r) = timerCancel ?r2" by simp
    then show ?thesis using t2 by (rule trans)
  qed
qed

lemma room_ok_recordVote: "room_ok r \<Longrightarrow> room_ok (recordVote playerID msg r)"
  by (rule room_ok_frame[of r]) (simp_all add: recordVote_def votes_ok_def room_ok_def distinct_update)

lemma room_ok_nextRound:
  assumes ok: "room_ok r"
  shows "room_ok (r\<lparr>Players := map (\<lambda>(k, p). (k, p\<lparr>Role := []\<rparr>)) (Players r),
                 InsiderID := [], Timer := 0, timerRunning := False, timerCancel := None,
                 State := ''lobby'', Votes := [], RoundEndByTimeout := False,
                 BlockedVoters := Map.empty, Voted := Map.empty, LastVotes := []\<rparr>)"
    (is "room_ok ?r'")
proof -
  from ok have pk: "players_ok r" and jk: "judge_ok r" by (simp_all add: room_ok_def)
  have P: "Players ?r' = map (\<lambda>(k, p). (k, p\<lparr>Role := []\<rparr>)) (Players r)" by simp
  have K: "fst ` set (Players ?r') = fst ` set (Players r)"
    unfolding P by (rule keys_set_map_values)
  have "players_ok ?r'" by (rule players_ok_map[OF pk P]) simp
  moreover have "fst ` set (Players r) \<subseteq> fst ` set (Players ?r')" using K by blast
  then have "judge_ok ?r'" by (intro judge_ok_keys[OF jk]) simp
  moreover note this
  moreover have "insider_ok ?r'" by (rule insider_ok_none) auto
  moreover have "votes_ok ?r'" by (simp add: votes_ok_def)
  ultimately show ?thesis by (simp add: room_ok_def)
qed

lemma world_ok_onRoom:
  assumes "world_ok w" and "room_ok (f (room w))" and "timerCancel (f (room w)) = timerCancel (room w)"
  shows "\<exists>w'. onRoom f w = Inr w' \<and> world_ok w'"
  using assms chans_ok_room[of w "f (room w)"] by (simp add: onRoom_def world_ok_def)

lemma apply_op_ok:
  assumes ok: "world_ok w"
  shows "\<exists>w'. apply_op x w = Inr w' \<and> world_ok w'"
proof -
  from ok have rk: "room_ok (room w)" and ck: "chans_ok w" by (simp_all add: world_ok_def)
  show ?thesis
  proof (cases x)
    case (OpJoin playerID playerName c)
    show ?thesis unfolding OpJoin apply_op.simps
      by (rule world_ok_onRoom[of w "ws_join playerID playerName c", OF ok room_ok_join[OF rk]]) (simp add: ws_join_def Let_def)
  next
    case (OpLeave pick playerID)
    show ?thesis unfolding OpLeave apply_op.simps
      by (rule world_ok_onRoom[of w "ws_leave pick playerID", OF ok room_ok_leave[OF rk]]) (simp add: ws_leave_def Let_def)
  next
    case (OpSetJudge msg)
    show ?thesis unfolding OpSetJudge apply_op.simps
      by (rule world_ok_onRoom[of w "ws_set_judge msg", OF ok room_ok_set_judge[OF rk]])
         (simp add: ws_set_judge_def split: option.split)
  next
    case (OpSetChatEnabled playerID msg)
    show ?thesis unfolding OpSetChatEnabled apply_op.simps
      by (rule world_ok_onRoom[of w "\<lambda>r. snd (ws_set_chat_enabled playerID msg r)", OF ok room_ok_set_chat_enabled[OF rk]])
         (simp add: ws_set_chat_enabled_def split: option.split)
  next
    case (OpStartRoundLocked msg)
    show ?thesis unfolding OpStartRoundLocked apply_op.simps
      by (rule world_ok_onRoom[of w "\<lambda>r. snd (start_round_locked msg r)", OF ok room_ok_start_round_locked[OF rk]])
         (simp add: start_round_locked_def Let_def)
  next
    case (OpAssignRoles rnd)
    show ?thesis unfolding OpAssignRoles apply_op.simps
      by (rule world_ok_onRoom[of w "assignRoles rnd", OF ok room_ok_assignRoles[OF rk]]) (rule timerCancel_assignRoles)
  next
    case (OpStartCountdownTimer d)
    let ?r' = "(room w)\<lparr>Timer := d, State := ''countdown'', timerRunning := True,
                 timerCancel := Some (nchan w), RoundEndByTimeout := False,
                 BlockedVoters := Map.empty, Voted := Map.empty, LastVotes := []\<rparr>"
    have "room_ok ?r'" by (rule room_ok_frame[OF rk]) (use rk in \<open>simp_all add: room_ok_def votes_ok_def\<close>)
    moreover have "chans_ok (w\<lparr>room := ?r', closedChans := closedAfterCancel w,
        nchan := Suc (nchan w), goroutines := goroutines w @ [(CountdownTimer, nchan w)]\<rparr>)"
      by (rule chans_ok_fresh[OF ck]) simp
    ultimately show ?thesis
      by (simp add: OpStartCountdownTimer startCountdownTimer_result[OF ck] world_ok_def)
  next
    case (OpStartVoteTimer d)
    let ?r' = "(room w)\<lparr>Timer := d, State := ''voting'', timerRunning := True,
                 timerCancel := Some (nchan w)\<rparr>"
    have "room_ok ?r'" by (rule room_ok_frame[OF rk]) (use rk in \<open>simp_all add: room_ok_def votes_ok_def\<close>)
    moreover have "chans_ok (w\<lparr>room := ?r', closedChans := closedAfterCancel w,
        nchan := Suc (nchan w), goroutines := goroutines w @ [(VoteTimer, nchan w)]\<rparr>)"
      by (rule chans_ok_fresh[OF ck]) simp
    ultimately show ?thesis
      by (simp add: OpStartVoteTimer startVoteTimer_result[OF ck] world_ok_def)
  next
    case OpCountdownTick
    show ?thesis unfolding OpCountdownTick apply_op.simps
      by (rule world_ok_onRoom[of w "\<lambda>r. fst (countdownTick r)", OF ok room_ok_countdownTick[OF rk]])
         (simp add: countdownTick_def Let_def)
  next
    case OpVoteTickLocked
    show ?thesis unfolding OpVoteTickLocked apply_op.simps
      by (rule world_ok_onRoom[of w "\<lambda>r. fst (voteTick_locked r)", OF ok room_ok_voteTick_locked[OF rk]])
         (simp add: voteTick_locked_def Let_def)
  next
    case OpGuessCorrectLocked
    let ?r1 = "(room w)\<lparr>timerRunning := False, timerCancel := None,
                   RoundEndByTimeout := False, State := ''voting'', Votes := [],
                   Voted := Map.empty, BlockedVoters := Map.empty, LastVotes := []\<rparr>"
    let ?r2 = "(room w)\<lparr>RoundEndByTimeout := False, State := ''voting'', Votes := [],
                   Voted := Map.empty, BlockedVoters := Map.empty, LastVotes := []\<rparr>"
    have "room_ok ?r1" by (rule room_ok_frame[OF rk]) (simp_all add: votes_ok_def)
    moreover have "room_ok ?r2" by (rule room_ok_frame[OF rk]) (simp_all add: votes_ok_def)
    moreover have "chans_ok (w\<lparr>room := ?r1, closedChans := closedAfterCancel w\<rparr>)"
      by (rule chans_ok_cleared[OF ck]) simp
    moreover have "chans_ok (w\<lparr>room := ?r2\<rparr>)" by (rule chans_ok_room[OF ck]) simp
    ultimately show ?thesis
      by (simp add: OpGuessCorrectLocked guessCorrect_locked_result[OF ck] world_ok_def)
  next
    case (OpVoteInsiderLocked playerID msg)
    show ?thesis
    proof (cases "validVote playerID msg (room w)")
      case False
      then show ?thesis using vote_locked_invalid[OF False] ok
        by (auto simp: OpVoteInsiderLocked)
    next
      case True
      let ?r1 = "recordVote playerID msg (room w)"
      have r1: "room_ok ?r1" by (rule room_ok_recordVote[OF rk])
      then have "room_ok (?r1\<lparr>timerRunning := False, timerCancel := None\<rparr>)"
        by (rule room_ok_frame) (use r1 in \<open>simp_all add: room_ok_def votes_ok_def\<close>)
      moreover have "chans_ok (w\<lparr>room := ?r1\<lparr>timerRunning := False, timerCancel := None\<rparr>,
          closedChans := closedAfterCancel w\<rparr>)"
        by (rule chans_ok_cleared[OF ck]) simp
      moreover have "chans_ok (w\<lparr>room := ?r1\<rparr>)"
        by (rule chans_ok_room[OF ck]) (simp add: recordVote_def)
      ultimately show ?thesis using r1
        by (simp add: OpVoteInsiderLocked vote_locked_valid[OF True ck] world_ok_def)
    qed
  next
    case OpTallyVotes
    obtain r' where t: "handleTallyVotes (room w) = Inr r'" using tally_total by blast
    have "room_ok r'" by (rule room_ok_tally[OF rk t])
    moreover have "chans_ok (w\<lparr>room := r'\<rparr>)"
      by (rule chans_ok_room[OF ck]) (simp add: tally_timer[OF t])
    ultimately show ?thesis by (simp add: OpTallyVotes t world_ok_def)
  next
    case OpNextRound
    have "chans_ok (w\<lparr>room := (room w)\<lparr>
                 Players := map (\<lambda>(k, p). (k, p\<lparr>Role := []\<rparr>)) (Players (room w)),
                 InsiderID := [], Timer := 0, timerRunning := False, timerCancel := None,
                 State := ''lobby'', Votes := [], RoundEndByTimeout := False,
                 BlockedVoters := Map.empty, Voted := Map.empty, LastVotes := []\<rparr>,
            closedChans := closedAfterCancel w\<rparr>)"
      by (rule chans_ok_cleared[OF ck]) simp
    then show ?thesis using room_ok_nextRound[OF rk]
      by (simp add: OpNextRound handleNextRound_result[OF ck] world_ok_def)
  next
    case (OpKick playerID msg)
    have "timerCancel (snd (ws_kick playerID msg (room w))) = timerCancel (room w)"
      using ws_kick_snd[of playerID msg "room w"] by auto
    then show ?thesis unfolding OpKick apply_op.simps
      by (intro world_ok_onRoom[of w "\<lambda>r. snd (ws_kick playerID msg r)", OF ok room_ok_kick[OF rk]])
  qed
qed

lemma run_ok: "world_ok w \<Longrightarrow> \<exists>w'. run xs w = Inr w' \<and> world_ok w'"
proof (induction xs arbitrary: w)
  case Nil then show ?case by simp
next
  case (Cons x xs)
  obtain w1 where "apply_op x w = Inr w1" "world_ok w1" using apply_op_ok[OF Cons.prems] by blast
  then show ?case using Cons.IH[of w1] by simp
qed

lemma world_ok_init: "world_ok (initWorld code)"
  by (simp add: world_ok_def room_ok_def players_ok_def votes_ok_def judge_ok_def insider_ok_def
      chans_ok_def initWorld_def newRoom_def)

lemmas example_defs =
  zeroMessage_def mkPlayer_def initWorld_def newRoom_def
  RoundDurationSeconds_def VoteDurationSeconds_def

lemmas section_defs =
  onRoom_def ws_join_def ws_leave_def ws_set_judge_def start_round_locked_def assignRoles_def
  startCountdownTimer_def startVoteTimer_def guessCorrect_locked_def stopRunningTimer_def
  vote_insider_locked_def closeChan_def isBlocked_def eligibleCount_def Let_def

lemma lobby_world_reachable: "run lobby_trace (initWorld ''R'') = Inr lobby_world"
  by (simp add: lobby_trace_def lobby_world_def example_defs section_defs)

lemma voting_world_reachable: "run voting_trace (initWorld ''R'') = Inr voting_world"
  by (simp add: voting_trace_def lobby_trace_def voting_world_def example_defs section_defs)

lemma abandoned_world_reachable: "run abandoned_trace (initWorld ''R'') = Inr abandoned_world"
  by (simp add: abandoned_trace_def abandoned_world_def example_defs section_defs)

lemma keys_update_lookup:
  "map_of al k = Some v \<Longrightarrow> map fst (AList.update k v' al) = map fst al"
  using key_of_lookup[of al k v] by (simp add: update_keys)

lemma scoreOf_map:
  assumes "players_ok r" and "Players r' = map (\<lambda>(k, p). (k, f p)) (Players r)"
    and "\<And>p. Score (f p) = g (ID p) (Score p)"
  shows "scoreOf r' k = map_option (g k) (scoreOf r k)"
proof (cases "map_of (Players r) k")
  case None
  then show ?thesis
    by (simp add: scoreOf_def assms(2) map_of_map_values[of "\<lambda>k p. f p"])
next
  case (Some p)
  then have "ID p = k" using entry_of_lookup[OF Some] assms(1) by (auto simp: players_ok_def)
  then show ?thesis
    by (simp add: scoreOf_def assms(2,3) Some map_of_map_values[of "\<lambda>k p. f p"])
qed

lemma scoreOf_update:
  assumes "Players r' = AList.update i (p\<lparr>Score := s\<rparr>) (Players r)"
    and "map_of (Players r) i = Some p"
  shows "scoreOf r' k = (if k = i then Some s else scoreOf r k)"
  by (simp add: scoreOf_def assms update_conv')

text \<open>
  Claim C1 (amended). handleTallyVotes begins with \<^verbatim>\<open>if len(room.Players) == 0 { return }\<close>,
  so the claim holds for a room with at least one player: when exactly one target \<open>x\<close>
  has the maximum number of votes, the tally does not panic, \<open>x\<close> is the only element of
  \<^verbatim>\<open>top\<close> (the accused), the room goes to \<^verbatim>\<open>scoreboard\<close>, and the votes, the voted markers and
  the blocked voters are empty. The players stay the same; if \<open>x\<close> is the insider id,
  the score of every player but the insider and the judge grows by one (in Go's wrapping
  arithmetic) and theirs stay; otherwise the score of the player with the insider id,
  if there is one, grows by two and all others stay.
\<close>

theorem tally_unique_winner:
  assumes ok: "players_ok r" and ne: "Players r \<noteq> []" and u: "tiedTargets (Votes r) = {x}"
  shows "\<exists>r'. handleTallyVotes r = Inr r' \<and>
           topOf (countVotes (Votes r)) = [x] \<and>
           State r' = ''scoreboard'' \<and> Votes r' = [] \<and> Voted r' = Map.empty \<and>
           BlockedVoters r' = Map.empty \<and>
           map fst (Players r') = map fst (Players r) \<and>
           (x = InsiderID r \<longrightarrow>
              (\<forall>k. scoreOf r' k =
                 map_option (\<lambda>s. if k = InsiderID r \<or> k = JudgeID r then s else s + 1)
                   (scoreOf r k))) \<and>
           (x \<noteq> InsiderID r \<longrightarrow>
              (\<forall>k. scoreOf r' k =
                 map_option (\<lambda>s. if k = InsiderID r then s + 2 else s) (scoreOf r k)))"
proof -
  let ?ps = "(if x = InsiderID r then
                 map (\<lambda>(k, p). if ID p = InsiderID r \<or> ID p = JudgeID r then (k, p)
                                else (k, p\<lparr>Score := Score p + 1\<rparr>)) (Players r)
               else
                 (case map_of (Players r) (InsiderID r) of
                    Some ins \<Rightarrow>
                      AList.update (InsiderID r) (ins\<lparr>Score := Score ins + 2\<rparr>) (Players r)
                  | None \<Rightarrow> Players r))"
  let ?r' = "r\<lparr>LastVotes := lastVotesOf (Votes r), Players := ?ps,
            State := ''scoreboard'', Votes := [], Voted := Map.empty,
            BlockedVoters := Map.empty\<rparr>"
  have t: "handleTallyVotes r = Inr ?r'" by (rule tally_unique[OF ne u])
  have P: "Players ?r' = ?ps" by simp
  have keys: "map fst (Players ?r') = map fst (Players r)"
  proof (cases "x = InsiderID r")
    case True
    then show ?thesis
      using keys_map_values[of "\<lambda>k p. if ID p = InsiderID r \<or> ID p = JudgeID r then p
                               else p\<lparr>Score := Score p + 1\<rparr>" "Players r"]
      by (simp add: score_map_eq)
  next
    case False
    then show ?thesis
      by (cases "map_of (Players r) (InsiderID r)") (simp_all add: keys_update_lookup)
  qed
  have correct: "scoreOf ?r' k =
      map_option (\<lambda>s. if k = InsiderID r \<or> k = JudgeID r then s else s + 1) (scoreOf r k)"
    if "x = InsiderID r" for k
  proof (rule scoreOf_map[OF ok, of ?r' "\<lambda>p. if ID p = InsiderID r \<or> ID p = JudgeID r then p
                               else p\<lparr>Score := Score p + 1\<rparr>"])
    show "Players ?r' = map (\<lambda>(k, p). (k, if ID p = InsiderID r \<or> ID p = JudgeID r then p
                               else p\<lparr>Score := Score p + 1\<rparr>)) (Players r)"
      using that by (simp add: score_map_eq)
  qed simp
  have wrong: "scoreOf ?r' k =
      map_option (\<lambda>s. if k = InsiderID r then s + 2 else s) (scoreOf r k)"
    if "x \<noteq> InsiderID r" for k
  proof (cases "map_of (Players r) (InsiderID r)")
    case None
    then have "Players ?r' = Players r" using that by simp
    then have "scoreOf ?r' k = scoreOf r k" by (simp add: scoreOf_def)
    moreover have "scoreOf r (InsiderID r) = None" using None by (simp add: scoreOf_def)
    ultimately show ?thesis by (cases "k = InsiderID r") (simp_all add: option.map_ident)
  next
    case (Some ins)
    then have "Players ?r' =
        AList.update (InsiderID r) (ins\<lparr>Score := Score ins + 2\<rparr>) (Players r)"
      using that by simp
    from scoreOf_update[OF this Some, of k] show ?thesis
      using Some by (cases "k = InsiderID r") (simp_all add: scoreOf_def option.map_ident)
  qed
  show ?thesis
    using t topOf_unique[OF u] keys correct wrong by (intro exI[of _ ?r']) simp
qed

lemma voting_world_tied: "tiedTargets (Votes (room voting_world)) = {''x''}"
  by (auto simp: tiedTargets_def votesFor_def voting_world_def newRoom_def)

lemma voting_world_players_ok: "players_ok (room voting_world)"
  by (simp add: players_ok_def voting_world_def newRoom_def mkPlayer_def)

theorem tally_unique_winner_witness:
  "players_ok (room voting_world) \<and> Players (room voting_world) \<noteq> [] \<and>
   tiedTargets (Votes (room voting_world)) = {''x''} \<and>
   (\<exists>r'. handleTallyVotes (room voting_world) = Inr r' \<and> State r' = ''scoreboard'' \<and>
      Votes r' = [] \<and> scoreOf r' ''a'' = Some 1 \<and> scoreOf r' ''y'' = Some 1 \<and>
      scoreOf r' ''x'' = Some 0 \<and> scoreOf r' ''j'' = Some 0) \<and>
   (\<exists>r'. handleTallyVotes ((room voting_world)\<lparr>InsiderID := ''y''\<rparr>) = Inr r' \<and>
      State r' = ''scoreboard'' \<and> Votes r' = [] \<and> scoreOf r' ''a'' = Some 0 \<and>
      scoreOf r' ''y'' = Some 2 \<and> scoreOf r' ''x'' = Some 0 \<and> scoreOf r' ''j'' = Some 0)"
proof -
  let ?r = "room voting_world"
  let ?q = "(room voting_world)\<lparr>InsiderID := ''y''\<rparr>"
  have ne: "Players ?r \<noteq> []" by (simp add: voting_world_def newRoom_def)
  have s: "scoreOf ?r ''a'' = Some 0" "scoreOf ?r ''y'' = Some 0" "scoreOf ?r ''x'' = Some 0"
    "scoreOf ?r ''j'' = Some 0" "InsiderID ?r = ''x''" "JudgeID ?r = ''j''"
    by (simp_all add: scoreOf_def voting_world_def newRoom_def mkPlayer_def)
  have q: "players_ok ?q" "Players ?q \<noteq> []" "tiedTargets (Votes ?q) = {''x''}"
    using voting_world_players_ok ne voting_world_tied by (simp_all add: players_ok_def)
  have sq: "scoreOf ?q = scoreOf ?r" "InsiderID ?q = ''y''" "JudgeID ?q = ''j''"
    using s by (simp_all add: scoreOf_def fun_eq_iff)
  have "\<exists>r'. handleTallyVotes ?r = Inr r' \<and> State r' = ''scoreboard'' \<and>
      Votes r' = [] \<and> scoreOf r' ''a'' = Some 1 \<and> scoreOf r' ''y'' = Some 1 \<and>
      scoreOf r' ''x'' = Some 0 \<and> scoreOf r' ''j'' = Some 0"
    using tally_unique_winner[OF voting_world_players_ok ne voting_world_tied] s by auto
  moreover have "\<exists>r'. handleTallyVotes ?q = Inr r' \<and>
      State r' = ''scoreboard'' \<and> Votes r' = [] \<and> scoreOf r' ''a'' = Some 0 \<and>
      scoreOf r' ''y'' = Some 2 \<and> scoreOf r' ''x'' = Some 0 \<and> scoreOf r' ''j'' = Some 0"
    using tally_unique_winner[OF q] s sq by auto
  ultimately show ?thesis using voting_world_players_ok ne voting_world_tied by blast
qed

text \<open>
  Claim C1 as stated fails. In \<open>abandoned_world\<close> every player has left while the vote
  timer runs; one vote is on record, so exactly one target has the maximum. The tally that
  the timer then starts returns at once: the room stays in \<^verbatim>\<open>voting\<close> and keeps the vote.
\<close>

theorem tally_unique_winner_counterexample:
  "run abandoned_trace (initWorld ''R'') = Inr abandoned_world \<and>
   tiedTargets (Votes (room abandoned_world)) = {''b''} \<and>
   handleTallyVotes (room abandoned_world) = Inr (room abandoned_world) \<and>
   State (room abandoned_world) \<noteq> ''scoreboard'' \<and>
   Votes (room abandoned_world) \<noteq> []"
proof -
  have "tiedTargets (Votes (room abandoned_world)) = {''b''}"
    by (auto simp: tiedTargets_def votesFor_def abandoned_world_def newRoom_def)
  moreover have "handleTallyVotes (room abandoned_world) = Inr (room abandoned_world)"
    by (rule tally_empty_room) (simp add: abandoned_world_def newRoom_def)
  ultimately show ?thesis
    using abandoned_world_reachable by (simp add: abandoned_world_def newRoom_def)
qed

text \<open>
  Claim C2 (amended). For a room with at least one player in which two or more targets
  share the maximum number of votes, the tally does not panic and leaves the room in
  \<^verbatim>\<open>voting\<close> with no votes and no voted markers; the blocked voters are exactly the tied
  targets; the players, and so their scores, are unchanged; the timer fields, the
  channels and the goroutines are unchanged, so no timer is started. After it, a
  \<^verbatim>\<open>vote_insider\<close> message from a tied target gets an error and leaves the state as it is.
\<close>

theorem tally_tie_revote:
  assumes ne: "Players (room w) \<noteq> []" and tie: "2 \<le> card (tiedTargets (Votes (room w)))"
  shows "\<exists>w'. apply_op OpTallyVotes w = Inr w' \<and>
           State (room w') = ''voting'' \<and> Votes (room w') = [] \<and>
           Voted (room w') = Map.empty \<and>
           dom (BlockedVoters (room w')) = tiedTargets (Votes (room w)) \<and>
           (\<forall>k. isBlocked (room w') k \<longleftrightarrow> k \<in> tiedTargets (Votes (room w))) \<and>
           Players (room w') = Players (room w) \<and>
           Timer (room w') = Timer (room w) \<and>
           timerRunning (room w') = timerRunning (room w) \<and>
           timerCancel (room w') = timerCancel (room w) \<and>
           goroutines w' = goroutines w \<and> nchan w' = nchan w \<and>
           closedChans w' = closedChans w \<and>
           (\<forall>k \<in> tiedTargets (Votes (room w)). \<forall>msg.
              \<exists>e. ws_vote_insider k msg w' = Inr (Some e, w'))"
proof -
  let ?T = "tiedTargets (Votes (room w))"
  let ?r' = "(room w)\<lparr>LastVotes := lastVotesOf (Votes (room w)), State := ''voting'',
            Votes := [], Voted := Map.empty,
            BlockedVoters := (\<lambda>k. if k \<in> ?T then Some True else None)\<rparr>"
  let ?w' = "w\<lparr>room := ?r'\<rparr>"
  have t: "handleTallyVotes (room w) = Inr ?r'"
    by (rule tally_tie[OF ne]) (use tie in simp)
  have ap: "apply_op OpTallyVotes w = Inr ?w'" by (simp add: t)
  have bl: "isBlocked (room ?w') k \<longleftrightarrow> k \<in> ?T" for k by (simp add: isBlocked_def)
  have dm: "dom (BlockedVoters (room ?w')) = ?T" by (auto simp: dom_def)
  have rej: "\<exists>e. ws_vote_insider k msg ?w' = Inr (Some e, ?w')" if "k \<in> ?T" for k msg
  proof -
    have "\<not> validVote k msg (room ?w')" using that bl[of k] by (simp add: validVote_def)
    from vote_locked_invalid[OF this] obtain e where
      "vote_insider_locked k msg ?w' = Inr (Some e, False, ?w')" by blast
    then have "ws_vote_insider k msg ?w' = Inr (Some e, ?w')" by (simp add: ws_vote_insider_def)
    then show ?thesis by blast
  qed
  show ?thesis
    by (rule exI[of _ ?w'], intro conjI ballI allI rej ap dm bl) simp_all
qed

lemma tie_example_tied:
  "tiedTargets [(''a'', ''x''), (''b'', ''y'')] = {''x'', ''y''}"
  by (auto simp: tiedTargets_def votesFor_def)

theorem tally_tie_revote_witness:
  "Players (room voting_world) \<noteq> [] \<and>
   2 \<le> card (tiedTargets (Votes ((room voting_world)\<lparr>Votes := [(''a'', ''x''), (''b'', ''y'')]\<rparr>))) \<and>
   (\<exists>w'. apply_op OpTallyVotes
            (voting_world\<lparr>room := (room voting_world)\<lparr>Votes := [(''a'', ''x''), (''b'', ''y'')]\<rparr>\<rparr>)
            = Inr w' \<and>
      State (room w') = ''voting'' \<and> Votes (room w') = [] \<and>
      dom (BlockedVoters (room w')) = {''x'', ''y''} \<and>
      goroutines w' = [(CountdownTimer, 0), (VoteTimer, 1)] \<and>
      (\<exists>e. ws_vote_insider ''x'' (zeroMessage\<lparr>mSuspectID := ''a''\<rparr>) w' = Inr (Some e, w')) \<and>
      (\<exists>e. ws_vote_insider ''y'' (zeroMessage\<lparr>mSuspectID := ''a''\<rparr>) w' = Inr (Some e, w')))"
proof -
  let ?w = "voting_world\<lparr>room := (room voting_world)\<lparr>Votes := [(''a'', ''x''), (''b'', ''y'')]\<rparr>\<rparr>"
  have ne: "Players (room ?w) \<noteq> []" by (simp add: voting_world_def newRoom_def)
  have T: "tiedTargets (Votes (room ?w)) = {''x'', ''y''}" by (simp add: tie_example_tied)
  have c: "2 \<le> card (tiedTargets (Votes (room ?w)))" by (simp add: tie_example_tied)
  have g: "goroutines ?w = [(CountdownTimer, 0), (VoteTimer, 1)]" by (simp add: voting_world_def)
  from tally_tie_revote[OF ne c] obtain w' where
    w': "apply_op OpTallyVotes ?w = Inr w'" "State (room w') = ''voting''" "Votes (room w') = []"
      "dom (BlockedVoters (room w')) = {''x'', ''y''}" "goroutines w' = goroutines ?w"
      "\<forall>k \<in> {''x'', ''y''}. \<forall>msg. \<exists>e. ws_vote_insider k msg w' = Inr (Some e, w')"
    unfolding T by blast
  have "\<exists>e. ws_vote_insider ''x'' (zeroMessage\<lparr>mSuspectID := ''a''\<rparr>) w' = Inr (Some e, w')"
    "\<exists>e. ws_vote_insider ''y'' (zeroMessage\<lparr>mSuspectID := ''a''\<rparr>) w' = Inr (Some e, w')"
    using w'(6) by blast+
  then show ?thesis using w'(1-5) ne g
    by (intro conjI exI[of _ w']) (simp_all add: tie_example_tied)
qed

text \<open>
  Claim C2 as stated fails in the same way: with two votes on record for two targets and
  no player left, the tally changes nothing, so the votes are not cleared and nobody is
  blocked.
\<close>

theorem tally_tie_revote_counterexample:
  "card (tiedTargets (Votes ((room abandoned_world)\<lparr>Votes := [(''a'', ''b''), (''b'', ''a'')]\<rparr>))) = 2 \<and>
   apply_op OpTallyVotes
     (abandoned_world\<lparr>room := (room abandoned_world)\<lparr>Votes := [(''a'', ''b''), (''b'', ''a'')]\<rparr>\<rparr>) =
     Inr (abandoned_world\<lparr>room := (room abandoned_world)\<lparr>Votes := [(''a'', ''b''), (''b'', ''a'')]\<rparr>\<rparr>) \<and>
   BlockedVoters (room abandoned_world) = Map.empty"
proof -
  have "tiedTargets [(''a'', ''b''), (''b'', ''a'')] = {''a'', ''b''}"
    by (auto simp: tiedTargets_def votesFor_def)
  then have "card (tiedTargets (Votes ((room abandoned_world)\<lparr>Votes := [(''a'', ''b''), (''b'', ''a'')]\<rparr>))) = 2"
    by simp
  moreover have "handleTallyVotes ((room abandoned_world)\<lparr>Votes := [(''a'', ''b''), (''b'', ''a'')]\<rparr>)
    = Inr ((room abandoned_world)\<lparr>Votes := [(''a'', ''b''), (''b'', ''a'')]\<rparr>)"
    by (rule tally_empty_room) (simp add: abandoned_world_def newRoom_def)
  ultimately show ?thesis by (simp add: abandoned_world_def newRoom_def)
qed

lemma countdown_world_reachable: "run countdown_trace (initWorld ''R'') = Inr countdown_world"
  by (simp add: countdown_trace_def lobby_trace_def countdown_world_def example_defs section_defs)

lemma world_ok_reachable: "run xs (initWorld code) = Inr w \<Longrightarrow> world_ok w"
  using run_ok[OF world_ok_init, of xs code] by auto

lemma lobby_world_ok: "world_ok lobby_world"
  by (rule world_ok_reachable[OF lobby_world_reachable])

lemma countdown_world_ok: "world_ok countdown_world"
  by (rule world_ok_reachable[OF countdown_world_reachable])

lemma voting_world_ok: "world_ok voting_world"
  by (rule world_ok_reachable[OF voting_world_reachable])

text \<open>
  Claim C5 (amended). The \<^verbatim>\<open>guess_correct\<close> case checks the sender only: there is no check
  of the room's state. From the judge, in every state, it takes effect: the stored cancel
  channel is closed, the room goes to \<^verbatim>\<open>voting\<close> with the vote state reset, and a vote
  timer of \<^verbatim>\<open>VoteDurationSeconds\<close> is started on a new channel. From any other sender it is
  answered with an error and the state is unchanged.
\<close>

theorem guess_correct_judge_only:
  assumes ck: "chans_ok w"
  shows "(JudgeID (room w) = playerID \<longrightarrow>
            (\<exists>w'. ws_guess_correct playerID w = Inr (None, w') \<and>
               State (room w') = ''voting'' \<and> Timer (room w') = VoteDurationSeconds \<and>
               Votes (room w') = [] \<and> Voted (room w') = Map.empty \<and>
               BlockedVoters (room w') = Map.empty \<and> LastVotes (room w') = [] \<and>
               \<not> RoundEndByTimeout (room w') \<and>
               closedChans w' = closedAfterCancel w \<and>
               timerRunning (room w') \<and> timerCancel (room w') = Some (nchan w) \<and>
               goroutines w' = goroutines w @ [(VoteTimer, nchan w)] \<and>
               Players (room w') = Players (room w))) \<and>
         (JudgeID (room w) \<noteq> playerID \<longrightarrow>
            ws_guess_correct playerID w = Inr (Some OnlyJudgeGuesses, w))"
proof -
  let ?w1 = "if timerRunning (room w) then
            w\<lparr>room := (room w)\<lparr>timerRunning := False, timerCancel := None,
                   RoundEndByTimeout := False, State := ''voting'', Votes := [],
                   Voted := Map.empty, BlockedVoters := Map.empty, LastVotes := []\<rparr>,
              closedChans := closedAfterCancel w\<rparr>
          else
            w\<lparr>room := (room w)\<lparr>RoundEndByTimeout := False, State := ''voting'', Votes := [],
                   Voted := Map.empty, BlockedVoters := Map.empty, LastVotes := []\<rparr>\<rparr>"
  have g: "guessCorrect_locked w = Inr ?w1" by (rule guessCorrect_locked_result[OF ck])
  have c1: "chans_ok ?w1"
  proof (cases "timerRunning (room w)")
    case True
    have "chans_ok (w\<lparr>room := (room w)\<lparr>timerRunning := False, timerCancel := None,
                   RoundEndByTimeout := False, State := ''voting'', Votes := [],
                   Voted := Map.empty, BlockedVoters := Map.empty, LastVotes := []\<rparr>,
              closedChans := closedAfterCancel w\<rparr>)"
      by (rule chans_ok_cleared[OF ck]) simp
    then show ?thesis using True by simp
  next
    case False
    have "chans_ok (w\<lparr>room := (room w)\<lparr>RoundEndByTimeout := False, State := ''voting'',
                   Votes := [], Voted := Map.empty, BlockedVoters := Map.empty,
                   LastVotes := []\<rparr>\<rparr>)"
      by (rule chans_ok_room[OF ck]) simp
    then show ?thesis using False by simp
  qed
  have ca: "closedAfterCancel ?w1 = closedAfterCancel w"
    by (simp add: closedAfterCancel_def split: option.split)
  have h: "handleGuessCorrect w =
     Inr (?w1\<lparr>room := (room ?w1)\<lparr>Timer := VoteDurationSeconds, State := ''voting'',
                   timerRunning := True, timerCancel := Some (nchan ?w1)\<rparr>,
            closedChans := closedAfterCancel ?w1, nchan := Suc (nchan ?w1),
            goroutines := goroutines ?w1 @ [(VoteTimer, nchan ?w1)]\<rparr>)"
    unfolding handleGuessCorrect_def g andThen_Inr by (rule startVoteTimer_result[OF c1])
  show ?thesis
    by (simp add: ws_guess_correct_def Let_def h ca)
qed

lemma chans_ok_world: "world_ok w \<Longrightarrow> chans_ok w"
  by (simp add: world_ok_def)

theorem guess_correct_judge_only_witness:
  "chans_ok countdown_world \<and> JudgeID (room countdown_world) = ''j'' \<and>
   (\<exists>w'. ws_guess_correct ''j'' countdown_world = Inr (None, w') \<and>
      State (room w') = ''voting'' \<and> Timer (room w') = 90 \<and> closedChans w' = {0} \<and>
      goroutines w' = [(CountdownTimer, 0), (VoteTimer, 1)]) \<and>
   ws_guess_correct ''a'' countdown_world = Inr (Some OnlyJudgeGuesses, countdown_world)"
proof -
  have ck: "chans_ok countdown_world" by (rule chans_ok_world[OF countdown_world_ok])
  have f: "JudgeID (room countdown_world) = ''j''" "nchan countdown_world = 1"
    "closedAfterCancel countdown_world = {0}"
    "goroutines countdown_world = [(CountdownTimer, 0)]"
    by (simp_all add: countdown_world_def newRoom_def closedAfterCancel_def)
  show ?thesis
    using guess_correct_judge_only[OF ck, of "''j''"] guess_correct_judge_only[OF ck, of "''a''"]
      ck f
    by (auto simp: VoteDurationSeconds_def)
qed

text \<open>
  Claim C5 as stated fails: in the lobby, before any round, the judge's \<^verbatim>\<open>guess_correct\<close>
  is not rejected; the room goes from \<^verbatim>\<open>lobby\<close> to \<^verbatim>\<open>voting\<close> and a vote timer starts.
\<close>

theorem guess_correct_judge_only_counterexample:
  "State (room lobby_world) = ''lobby'' \<and>
   ws_guess_correct ''j'' lobby_world =
     Inr (None,
          lobby_world\<lparr>room := (room lobby_world)\<lparr>State := ''voting'', Timer := 90,
                         timerRunning := True, timerCancel := Some 0\<rparr>,
                      nchan := 1, goroutines := [(VoteTimer, 0)]\<rparr>)"
  by (simp add: lobby_world_def newRoom_def ws_guess_correct_def handleGuessCorrect_def
      guessCorrect_locked_def stopRunningTimer_def startVoteTimer_def VoteDurationSeconds_def
      Let_def)

text \<open>
  Claim C9. In every state, \<^verbatim>\<open>next_round\<close> is answered without an error: the room goes to
  \<^verbatim>\<open>lobby\<close>, every role and the insider id are cleared, the timer is zero and not running,
  the stored cancel channel is closed and forgotten, and the votes, the voted markers,
  the blocked voters and the last votes are empty. The players keep their keys, order and
  every field but the role, so their scores; the host id and the judge id stay. No
  goroutine is started. The hypothesis holds in every state a run reaches (\<open>run_ok\<close>): the
  stored channel is never a closed one.
\<close>

theorem next_round_resets:
  assumes ck: "chans_ok w"
  shows "\<exists>w'. ws_next_round w = Inr (None, w') \<and>
           State (room w') = ''lobby'' \<and>
           Players (room w') = map (\<lambda>(k, p). (k, p\<lparr>Role := []\<rparr>)) (Players (room w)) \<and>
           (\<forall>(k, p) \<in> set (Players (room w')). Role p = []) \<and>
           map fst (Players (room w')) = map fst (Players (room w)) \<and>
           (\<forall>k. scoreOf (room w') k = scoreOf (room w) k) \<and>
           InsiderID (room w') = [] \<and> Timer (room w') = 0 \<and>
           \<not> timerRunning (room w') \<and> timerCancel (room w') = None \<and>
           closedChans w' = closedAfterCancel w \<and>
           goroutines w' = goroutines w \<and> nchan w' = nchan w \<and>
           Votes (room w') = [] \<and> Voted (room w') = Map.empty \<and>
           BlockedVoters (room w') = Map.empty \<and> LastVotes (room w') = [] \<and>
           HostID (room w') = HostID (room w) \<and> JudgeID (room w') = JudgeID (room w)"
proof -
  let ?ps = "map (\<lambda>(k, p). (k, p\<lparr>Role := []\<rparr>)) (Players (room w))"
  let ?w' = "w\<lparr>room := (room w)\<lparr>Players := ?ps,
                 InsiderID := [], Timer := 0, timerRunning := False, timerCancel := None,
                 State := ''lobby'', Votes := [], RoundEndByTimeout := False,
                 BlockedVoters := Map.empty, Voted := Map.empty, LastVotes := []\<rparr>,
            closedChans := closedAfterCancel w\<rparr>"
  have n: "ws_next_round w = Inr (None, ?w')"
    by (simp add: ws_next_round_def handleNextRound_result[OF ck])
  have roles: "\<forall>(k, p) \<in> set ?ps. Role p = []" by auto
  have keys: "map fst ?ps = map fst (Players (room w))"
    by (rule keys_map_values[of "\<lambda>k p. p\<lparr>Role := []\<rparr>"])
  have sc: "scoreOf (room ?w') k = scoreOf (room w) k" for k
    by (simp add: scoreOf_def map_of_map_values[of "\<lambda>k p. p\<lparr>Role := []\<rparr>"]
        option.map_comp comp_def)
  show ?thesis
    by (rule exI[of _ ?w'], intro conjI allI n sc) (use roles keys in simp_all)
qed

theorem next_round_resets_witness:
  "chans_ok voting_world \<and>
   (\<exists>w'. ws_next_round voting_world = Inr (None, w') \<and> State (room w') = ''lobby'' \<and>
      InsiderID (room w') = [] \<and> timerCancel (room w') = None \<and> closedChans w' = {0, 1} \<and>
      map fst (Players (room w')) = [''j'', ''a'', ''b'', ''c'', ''x'', ''y''] \<and>
      JudgeID (room w') = ''j'' \<and> HostID (room w') = ''j'' \<and> Votes (room w') = [])"
proof -
  have ck: "chans_ok voting_world" by (rule chans_ok_world[OF voting_world_ok])
  have f: "closedAfterCancel voting_world = {0, 1}"
    "map fst (Players (room voting_world)) = [''j'', ''a'', ''b'', ''c'', ''x'', ''y'']"
    "JudgeID (room voting_world) = ''j''" "HostID (room voting_world) = ''j''"
    by (auto simp: voting_world_def newRoom_def closedAfterCancel_def mkPlayer_def)
  from next_round_resets[OF ck] obtain w' where
    "ws_next_round voting_world = Inr (None, w')" "State (room w') = ''lobby''"
    "InsiderID (room w') = []" "timerCancel (room w') = None"
    "closedChans w' = closedAfterCancel voting_world"
    "map fst (Players (room w')) = map fst (Players (room voting_world))"
    "JudgeID (room w') = JudgeID (room voting_world)"
    "HostID (room w') = HostID (room voting_world)" "Votes (room w') = []"
    by blast
  then show ?thesis using ck f by (intro conjI exI[of _ w']) simp_all
qed

lemma eligibleCount_fold:
  "fold (\<lambda>(k, p) eligible.
           if k = j then eligible else if b k then eligible else eligible + 1) ps (n::int) =
   n + int (length (filter (\<lambda>k. k \<noteq> j \<and> \<not> b k) (map fst ps)))"
  by (induction ps arbitrary: n) auto

lemma eligibleCount_filter:
  "eligibleCount r =
     int (length (filter (\<lambda>k. k \<noteq> JudgeID r \<and> \<not> isBlocked r k) (map fst (Players r))))"
  by (simp add: eligibleCount_def eligibleCount_fold[of "JudgeID r" "isBlocked r"])

lemma eligibleCount_card:
  assumes "distinct (map fst (Players r))"
  shows "eligibleCount r = int (card (eligibleVoters r))"
proof -
  let ?xs = "filter (\<lambda>k. k \<noteq> JudgeID r \<and> \<not> isBlocked r k) (map fst (Players r))"
  have d: "distinct ?xs" using assms by (rule distinct_filter)
  have "set ?xs = eligibleVoters r" by (auto simp: eligibleVoters_def)
  then have "card (eligibleVoters r) = length ?xs" using distinct_card[OF d] by simp
  then show ?thesis by (simp only: eligibleCount_filter)
qed

lemma eligibleCount_recordVote:
  "eligibleCount (recordVote playerID msg r) = eligibleCount r"
  by (simp add: eligibleCount_filter recordVote_def isBlocked_def)

lemma eligible_pos_players: "0 < eligibleCount r \<Longrightarrow> Players r \<noteq> []"
  by (auto simp: eligibleCount_filter)

lemma voters_card: "distinct (map fst vs) \<Longrightarrow> length vs = card (fst ` set vs)"
  using distinct_card[of "map fst vs"] by simp

text \<open>
  Claim C10. A valid \<^verbatim>\<open>vote_insider\<close> message from a voter who already has a vote on record
  is accepted, and the assignment \<^verbatim>\<open>room.Votes[playerID] = msg.SuspectID\<close> replaces that
  voter's entry: the mapping has the same voters as before, one entry for each, the new
  target for this voter and the old targets for the others, so the number of voters that
  the completion check compares with the eligible count has not grown.
\<close>

theorem revote_overwrites:
  assumes ck: "chans_ok w" and vk: "votes_ok (room w)"
    and valid: "validVote playerID msg (room w)"
    and old: "map_of (Votes (room w)) playerID = Some target"
  shows "\<exists>tally w1. vote_insider_locked playerID msg w = Inr (None, tally, w1) \<and>
           map_of (Votes (room w1)) = (map_of (Votes (room w)))(playerID \<mapsto> mSuspectID msg) \<and>
           map fst (Votes (room w1)) = map fst (Votes (room w)) \<and>
           distinct (map fst (Votes (room w1))) \<and>
           length (Votes (room w1)) = length (Votes (room w)) \<and>
           (tally \<longleftrightarrow> eligibleCount (room w) \<le> int (length (Votes (room w))) \<and>
                      0 < eligibleCount (room w))"
proof -
  let ?r1 = "recordVote playerID msg (room w)"
  have keys: "map fst (Votes ?r1) = map fst (Votes (room w))"
    by (simp add: recordVote_def keys_update_lookup[OF old])
  then have len: "length (Votes ?r1) = length (Votes (room w))"
    by (metis length_map)
  have lk: "map_of (Votes ?r1) = (map_of (Votes (room w)))(playerID \<mapsto> mSuspectID msg)"
    by (simp add: recordVote_def update_conv')
  have d: "distinct (map fst (Votes ?r1))" using vk keys by (simp add: votes_ok_def)
  have vc: "voteComplete ?r1 \<longleftrightarrow>
      eligibleCount (room w) \<le> int (length (Votes (room w))) \<and> 0 < eligibleCount (room w)"
    by (simp add: voteComplete_def eligibleCount_recordVote len)
  show ?thesis
  proof (cases "voteComplete ?r1")
    case True
    let ?w1 = "if timerRunning (room w) then
               w\<lparr>room := ?r1\<lparr>timerRunning := False, timerCancel := None\<rparr>,
                 closedChans := closedAfterCancel w\<rparr>
             else w\<lparr>room := ?r1\<rparr>"
    have "vote_insider_locked playerID msg w = Inr (None, True, ?w1)"
      using True by (simp add: vote_locked_valid[OF valid ck])
    moreover have "Votes (room ?w1) = Votes ?r1" by simp
    ultimately show ?thesis using keys len lk d vc True
      by (intro exI[of _ True] exI[of _ ?w1]) simp
  next
    case False
    have "vote_insider_locked playerID msg w = Inr (None, False, w\<lparr>room := ?r1\<rparr>)"
      using False by (simp add: vote_locked_valid[OF valid ck])
    then show ?thesis using keys len lk d vc False
      by (intro exI[of _ False] exI[of _ "w\<lparr>room := ?r1\<rparr>"]) simp
  qed
qed

theorem revote_overwrites_witness:
  "chans_ok voting_world \<and> votes_ok (room voting_world) \<and>
   validVote ''a'' (zeroMessage\<lparr>mSuspectID := ''y''\<rparr>) (room voting_world) \<and>
   map_of (Votes (room voting_world)) ''a'' = Some ''x'' \<and>
   (\<exists>tally w1. vote_insider_locked ''a'' (zeroMessage\<lparr>mSuspectID := ''y''\<rparr>) voting_world =
        Inr (None, tally, w1) \<and>
      map_of (Votes (room w1)) ''a'' = Some ''y'' \<and> map_of (Votes (room w1)) ''b'' = Some ''x'' \<and>
      length (Votes (room w1)) = 3 \<and> \<not> tally)"
proof -
  have ck: "chans_ok voting_world" by (rule chans_ok_world[OF voting_world_ok])
  have vk: "votes_ok (room voting_world)" using voting_world_ok by (simp add: world_ok_def room_ok_def)
  have valid: "validVote ''a'' (zeroMessage\<lparr>mSuspectID := ''y''\<rparr>) (room voting_world)"
    by (simp add: validVote_def voting_world_def newRoom_def zeroMessage_def isBlocked_def
        mkPlayer_def)
  have old: "map_of (Votes (room voting_world)) ''a'' = Some ''x''"
    by (simp add: voting_world_def newRoom_def)
  have f: "map_of (Votes (room voting_world)) ''b'' = Some ''x''"
    "length (Votes (room voting_world)) = 3" "eligibleCount (room voting_world) = 5"
    "mSuspectID (zeroMessage\<lparr>mSuspectID := ''y''\<rparr>) = ''y''"
    by (simp_all add: voting_world_def newRoom_def eligibleCount_def isBlocked_def mkPlayer_def)
  from revote_overwrites[OF ck vk valid old] obtain tally w1 where
    r: "vote_insider_locked ''a'' (zeroMessage\<lparr>mSuspectID := ''y''\<rparr>) voting_world =
        Inr (None, tally, w1)"
      "map_of (Votes (room w1)) =
        (map_of (Votes (room voting_world)))(''a'' \<mapsto> mSuspectID (zeroMessage\<lparr>mSuspectID := ''y''\<rparr>))"
      "length (Votes (room w1)) = length (Votes (room voting_world))"
      "tally \<longleftrightarrow> eligibleCount (room voting_world) \<le> int (length (Votes (room voting_world))) \<and>
                      0 < eligibleCount (room voting_world)"
    by blast
  have "map_of (Votes (room w1)) ''a'' = Some ''y''" "map_of (Votes (room w1)) ''b'' = Some ''x''"
    "length (Votes (room w1)) = 3" "\<not> tally"
    using r(2-4) f by simp_all
  then show ?thesis using ck vk valid old r(1) by (intro conjI exI[of _ tally] exI[of _ w1]) simp_all
qed

lemma tally_ran:
  assumes ne: "Players r \<noteq> []" and t: "handleTallyVotes r = Inr r'"
  shows "LastVotes r' = lastVotesOf (Votes r) \<and> Votes r' = [] \<and>
         (State r' = ''scoreboard'' \<or> State r' = ''voting'')"
proof (cases r rule: tally_cases)
  case empty_room
  then show ?thesis using ne by simp
next
  case no_votes
  then show ?thesis using t by (auto simp: tally_no_votes lastVotesOf_def)
next
  case tie
  from t[unfolded tally_tie[OF tie]] show ?thesis by auto
next
  case (unique x)
  from t[unfolded tally_unique[OF unique]] show ?thesis by auto
qed

lemma eligibleVoters_recordVote:
  "eligibleVoters (recordVote playerID msg r) = eligibleVoters r"
  by (simp add: eligibleVoters_def recordVote_def isBlocked_def)

text \<open>
  Claim C6. In state \<^verbatim>\<open>voting\<close>, after a valid vote is put on record, the handler counts the
  members of the room that are neither the judge nor blocked. If the voters on record are
  at least that many and the count is positive, it stops the running timer (the flag is
  cleared, the stored channel closed and forgotten, no goroutine started) and then runs
  the tally in the same call: the reply carries no error, the tally's record of the votes
  is the mapping with the new vote, and the mapping is empty afterwards. Otherwise no
  tally runs: the state is the one with the vote on record.
\<close>

theorem vote_completion_tally:
  assumes ok: "world_ok w" and valid: "validVote playerID msg (room w)"
  shows "eligibleCount (recordVote playerID msg (room w)) = int (card (eligibleVoters (room w))) \<and>
         length (Votes (recordVote playerID msg (room w))) =
           card (fst ` set (Votes (recordVote playerID msg (room w)))) \<and>
         (card (eligibleVoters (room w)) \<le>
            card (fst ` set (Votes (recordVote playerID msg (room w)))) \<and>
          0 < card (eligibleVoters (room w)) \<longrightarrow>
            (\<exists>w1 r2. stopRunningTimer (w\<lparr>room := recordVote playerID msg (room w)\<rparr>) = Inr w1 \<and>
               \<not> timerRunning (room w1) \<and>
               (timerRunning (room w) \<longrightarrow>
                  timerCancel (room w1) = None \<and> closedChans w1 = closedAfterCancel w) \<and>
               goroutines w1 = goroutines w \<and>
               handleTallyVotes (room w1) = Inr r2 \<and>
               ws_vote_insider playerID msg w = Inr (None, w1\<lparr>room := r2\<rparr>) \<and>
               LastVotes r2 = lastVotesOf (Votes (recordVote playerID msg (room w))) \<and>
               Votes r2 = [])) \<and>
         (\<not> (card (eligibleVoters (room w)) \<le>
               card (fst ` set (Votes (recordVote playerID msg (room w)))) \<and>
             0 < card (eligibleVoters (room w))) \<longrightarrow>
            ws_vote_insider playerID msg w =
              Inr (None, w\<lparr>room := recordVote playerID msg (room w)\<rparr>) \<and>
            Votes (recordVote playerID msg (room w)) \<noteq> [])"
proof -
  let ?r1 = "recordVote playerID msg (room w)"
  from ok have pk: "players_ok (room w)" and vk: "votes_ok (room w)" and ck: "chans_ok w"
    by (simp_all add: world_ok_def room_ok_def)
  have e: "eligibleCount ?r1 = int (card (eligibleVoters (room w)))"
    using pk by (simp add: eligibleCount_recordVote eligibleCount_card players_ok_def)
  have d1: "distinct (map fst (Votes ?r1))"
    using vk by (simp add: recordVote_def votes_ok_def distinct_update)
  have n: "length (Votes ?r1) = card (fst ` set (Votes ?r1))" by (rule voters_card[OF d1])
  have vne: "Votes ?r1 \<noteq> []" by (simp add: recordVote_def)
  have vc: "voteComplete ?r1 \<longleftrightarrow>
      card (eligibleVoters (room w)) \<le> card (fst ` set (Votes ?r1)) \<and>
      0 < card (eligibleVoters (room w))"
    unfolding voteComplete_def e n[symmetric] by simp
  have c1: "chans_ok (w\<lparr>room := ?r1\<rparr>)"
    by (rule chans_ok_room[OF ck]) (simp add: recordVote_def)
  have ca: "closedAfterCancel (w\<lparr>room := ?r1\<rparr>) = closedAfterCancel w"
    by (simp add: closedAfterCancel_def recordVote_def split: option.split)
  have tr: "timerRunning ?r1 = timerRunning (room w)" by (simp add: recordVote_def)
  have complete: "\<exists>w1 r2. stopRunningTimer (w\<lparr>room := ?r1\<rparr>) = Inr w1 \<and>
               \<not> timerRunning (room w1) \<and>
               (timerRunning (room w) \<longrightarrow>
                  timerCancel (room w1) = None \<and> closedChans w1 = closedAfterCancel w) \<and>
               goroutines w1 = goroutines w \<and>
               handleTallyVotes (room w1) = Inr r2 \<and>
               ws_vote_insider playerID msg w = Inr (None, w1\<lparr>room := r2\<rparr>) \<and>
               LastVotes r2 = lastVotesOf (Votes ?r1) \<and> Votes r2 = []"
    if c: "voteComplete ?r1"
  proof -
    let ?w1 = "if timerRunning (room w) then
               w\<lparr>room := ?r1\<lparr>timerRunning := False, timerCancel := None\<rparr>,
                 closedChans := closedAfterCancel w\<rparr>
             else w\<lparr>room := ?r1\<rparr>"
    have s: "stopRunningTimer (w\<lparr>room := ?r1\<rparr>) = Inr ?w1"
      by (simp add: stopRunningTimer_result[OF c1] ca tr)
    have l: "vote_insider_locked playerID msg w = Inr (None, True, ?w1)"
      using c by (simp add: vote_locked_valid[OF valid ck])
    have "0 < eligibleCount ?r1" using c by (simp add: voteComplete_def)
    then have "Players ?r1 \<noteq> []" by (rule eligible_pos_players)
    then have pne: "Players (room ?w1) \<noteq> []" by simp
    have v1: "Votes (room ?w1) = Votes ?r1" by simp
    obtain r2 where t: "handleTallyVotes (room ?w1) = Inr r2" using tally_total by blast
    have "ws_vote_insider playerID msg w = Inr (None, ?w1\<lparr>room := r2\<rparr>)"
      by (simp add: ws_vote_insider_def l t)
    moreover have "LastVotes r2 = lastVotesOf (Votes ?r1) \<and> Votes r2 = []"
      using tally_ran[OF pne t] v1 by simp
    moreover have "\<not> timerRunning (room ?w1)" using tr by simp
    moreover have "timerRunning (room w) \<longrightarrow>
        timerCancel (room ?w1) = None \<and> closedChans ?w1 = closedAfterCancel w" by simp
    moreover have "goroutines ?w1 = goroutines w" by simp
    ultimately show ?thesis using s t by blast
  qed
  have incomplete: "ws_vote_insider playerID msg w = Inr (None, w\<lparr>room := ?r1\<rparr>)"
    if "\<not> voteComplete ?r1"
    using that by (simp add: ws_vote_insider_def vote_locked_valid[OF valid ck])
  show ?thesis
    using e n vne complete incomplete unfolding vc by blast
qed

theorem vote_completion_tally_witness:
  "world_ok voting_world \<and>
   validVote ''x'' (zeroMessage\<lparr>mSuspectID := ''a''\<rparr>) (room voting_world) \<and>
   ws_vote_insider ''x'' (zeroMessage\<lparr>mSuspectID := ''a''\<rparr>) voting_world =
     Inr (None, voting_world\<lparr>room :=
       recordVote ''x'' (zeroMessage\<lparr>mSuspectID := ''a''\<rparr>) (room voting_world)\<rparr>) \<and>
   world_ok (voting_world\<lparr>room := (room voting_world)\<lparr>JudgeID := ''y'',
       BlockedVoters := [''x'' \<mapsto> True, ''j'' \<mapsto> True]\<rparr>\<rparr>) \<and>
   (\<exists>w'. ws_vote_insider ''c'' (zeroMessage\<lparr>mSuspectID := ''y''\<rparr>)
           (voting_world\<lparr>room := (room voting_world)\<lparr>JudgeID := ''y'',
              BlockedVoters := [''x'' \<mapsto> True, ''j'' \<mapsto> True]\<rparr>\<rparr>) = Inr (None, w') \<and>
      Votes (room w') = [] \<and> \<not> timerRunning (room w') \<and> closedChans w' = {0, 1})"
proof -
  let ?m = "zeroMessage\<lparr>mSuspectID := ''a''\<rparr>"
  let ?n = "zeroMessage\<lparr>mSuspectID := ''y''\<rparr>"
  let ?v = "voting_world\<lparr>room := (room voting_world)\<lparr>JudgeID := ''y'',
       BlockedVoters := [''x'' \<mapsto> True, ''j'' \<mapsto> True]\<rparr>\<rparr>"
  have valid: "validVote ''x'' ?m (room voting_world)"
    by (simp add: validVote_def voting_world_def newRoom_def zeroMessage_def isBlocked_def
        mkPlayer_def)
  have el: "eligibleVoters (room voting_world) = {''a'', ''b'', ''c'', ''x'', ''y''}"
    by (auto simp: eligibleVoters_def voting_world_def newRoom_def isBlocked_def mkPlayer_def)
  have vs: "fst ` set (Votes (recordVote ''x'' ?m (room voting_world))) = {''a'', ''b'', ''c'', ''x''}"
    by (auto simp: recordVote_def voting_world_def newRoom_def zeroMessage_def)
  have first: "ws_vote_insider ''x'' ?m voting_world =
     Inr (None, voting_world\<lparr>room := recordVote ''x'' ?m (room voting_world)\<rparr>)"
    using vote_completion_tally[OF voting_world_ok valid] unfolding el vs by simp
  have okv: "world_ok ?v"
    using voting_world_ok
    by (simp add: world_ok_def room_ok_def players_ok_def votes_ok_def judge_ok_def
        insider_ok_def chans_ok_def voting_world_def newRoom_def mkPlayer_def)
  have validv: "validVote ''c'' ?n (room ?v)"
    by (simp add: validVote_def voting_world_def newRoom_def zeroMessage_def isBlocked_def
        mkPlayer_def)
  have elv: "eligibleVoters (room ?v) = {''a'', ''b'', ''c''}"
    by (auto simp: eligibleVoters_def voting_world_def newRoom_def isBlocked_def mkPlayer_def)
  have vsv: "fst ` set (Votes (recordVote ''c'' ?n (room ?v))) = {''a'', ''b'', ''c''}"
    by (auto simp: recordVote_def voting_world_def newRoom_def zeroMessage_def)
  have f: "timerRunning (room ?v)" "closedAfterCancel ?v = {0, 1}"
    by (auto simp: voting_world_def newRoom_def closedAfterCancel_def)
  from vote_completion_tally[OF okv validv] obtain w1 r2 where
    "\<not> timerRunning (room w1)" "closedChans w1 = closedAfterCancel ?v"
    "handleTallyVotes (room w1) = Inr r2"
    "ws_vote_insider ''c'' ?n ?v = Inr (None, w1\<lparr>room := r2\<rparr>)" "Votes r2 = []"
    unfolding elv vsv using f(1) by auto
  then have "\<exists>w'. ws_vote_insider ''c'' ?n ?v = Inr (None, w') \<and>
      Votes (room w') = [] \<and> \<not> timerRunning (room w') \<and> closedChans w' = {0, 1}"
    using f(2) tally_timer[of "room w1" r2] by (intro exI[of _ "w1\<lparr>room := r2\<rparr>"]) simp
  then show ?thesis using voting_world_ok valid first okv by blast
qed

lemma sint_dec:
  fixes t :: go_int
  assumes "0 < sint t"
  shows "sint (t - 1) = sint t - 1"
proof -
  have "sint t < 2 ^ 63" using sint_lt[of t] by simp
  then have "signed_take_bit 63 (sint t - 1) = sint t - 1"
    using assms by (intro signed_take_bit_int_eq_self) simp_all
  then show ?thesis by (simp add: sint_word_ariths)
qed

lemma spos_iff: "0 <s (t :: go_int) \<longleftrightarrow> 0 < sint t"
  by (simp add: word_sless_alt)

lemma snonpos_iff: "(t :: go_int) \<le>s 0 \<longleftrightarrow> sint t \<le> 0"
  by (simp add: word_sle_eq)

lemma countdownTick_step:
  assumes "timerRunning r" and "1 < sint (Timer r)"
  shows "countdownTick r = (r\<lparr>Timer := Timer r - 1\<rparr>, True)"
  using assms sint_dec[of "Timer r"]
  by (simp add: countdownTick_def Let_def spos_iff snonpos_iff)

lemma countdownTick_last:
  assumes "timerRunning r" and "sint (Timer r) = 1"
  shows "countdownTick r =
     (r\<lparr>Timer := 0, timerRunning := False, State := ''scoreboard'',
        RoundEndByTimeout := True, Votes := []\<rparr>, False)"
  using assms sint_dec[of "Timer r"]
  by (simp add: countdownTick_def Let_def spos_iff snonpos_iff)

lemma sint_sub_of_nat:
  fixes t :: go_int
  assumes "int k < sint t"
  shows "sint (t - of_nat k) = sint t - int k"
  using assms
proof (induction k)
  case 0 then show ?case by simp
next
  case (Suc k)
  then have ih: "sint (t - of_nat k) = sint t - int k" by simp
  then have "0 < sint (t - of_nat k)" using Suc.prems by simp
  from sint_dec[OF this] have d: "sint (t - of_nat k - 1) = sint t - int k - 1" using ih by simp
  have "t - of_nat (Suc k) = t - of_nat k - 1" by simp
  then have "sint (t - of_nat (Suc k)) = sint (t - of_nat k - 1)" by (rule arg_cong)
  also have "\<dots> = sint t - int k - 1" by (rule d)
  finally show ?case by simp
qed

lemma countdownLoop_steps:
  assumes "timerRunning r" and "int k < sint (Timer r)"
  shows "countdownLoop k r = (r\<lparr>Timer := Timer r - of_nat k\<rparr>, True)"
  using assms
proof (induction k arbitrary: r)
  case 0 then show ?case by simp
next
  case (Suc k)
  have gt: "1 < sint (Timer r)" using Suc.prems(2) by simp
  have tick: "countdownTick r = (r\<lparr>Timer := Timer r - 1\<rparr>, True)"
    by (rule countdownTick_step[OF Suc.prems(1) gt])
  have "sint (Timer r - 1) = sint (Timer r) - 1" using gt by (intro sint_dec) simp
  then have lt: "int k < sint (Timer (r\<lparr>Timer := Timer r - 1\<rparr>))" using Suc.prems(2) by simp
  have run': "timerRunning (r\<lparr>Timer := Timer r - 1\<rparr>)" using Suc.prems(1) by simp
  show ?case
    using Suc.IH[OF run' lt] by (simp add: tick algebra_simps)
qed

lemma countdownLoop_timeout:
  assumes "timerRunning r" and "0 < sint (Timer r)"
  shows "countdownLoop (nat (sint (Timer r))) r =
     (r\<lparr>Timer := 0, timerRunning := False, State := ''scoreboard'',
        RoundEndByTimeout := True, Votes := []\<rparr>, False)"
  using assms
proof (induction "nat (sint (Timer r))" arbitrary: r)
  case 0 then show ?case by simp
next
  case (Suc n)
  then have n: "sint (Timer r) = int n + 1" by linarith
  show ?case
  proof (cases n)
    case 0
    then have one: "sint (Timer r) = 1" using n by simp
    have "countdownLoop (Suc 0) r =
        (r\<lparr>Timer := 0, timerRunning := False, State := ''scoreboard'',
           RoundEndByTimeout := True, Votes := []\<rparr>, False)"
      by (simp add: countdownTick_last[OF Suc.prems(1) one])
    then show ?thesis using one by simp
  next
    case (Suc m)
    then have gt: "1 < sint (Timer r)" using n by simp
    let ?r1 = "r\<lparr>Timer := Timer r - 1\<rparr>"
    have tick: "countdownTick r = (?r1, True)" by (rule countdownTick_step[OF Suc.prems(1) gt])
    have s1: "sint (Timer ?r1) = int n" using sint_dec[of "Timer r"] gt n by simp
    then have h1: "n = nat (sint (Timer ?r1))" by simp
    have r1: "timerRunning ?r1" using Suc.prems(1) by simp
    have p1: "0 < sint (Timer ?r1)" using s1 Suc by simp
    from Suc.hyps(1)[OF h1 r1 p1]
    have "countdownLoop n ?r1 =
        (r\<lparr>Timer := 0, timerRunning := False, State := ''scoreboard'',
           RoundEndByTimeout := True, Votes := []\<rparr>, False)"
      using s1 by simp
    moreover have "nat (sint (Timer r)) = Suc n" using n by simp
    ultimately show ?thesis by (simp add: tick)
  qed
qed

text \<open>
  Claim C7. A countdown timer started with a positive duration \<open>D\<close>, its ticks the only
  events: before each of the first \<open>D\<close> ticks the goroutine is still running and the room
  is in \<^verbatim>\<open>countdown\<close>; after \<open>k < D\<close> ticks the timer shows \<open>D - k\<close>, one less for each tick
  and positive; the tick number \<open>D\<close> sets the timer to zero, stops the timer, puts the
  room in \<^verbatim>\<open>scoreboard\<close> with \<^verbatim>\<open>RoundEndByTimeout\<close> set and no votes, and ends the goroutine.
  The players, and so the scores, are those of the start.
\<close>

theorem countdown_runs_to_timeout:
  assumes ck: "chans_ok w" and pos: "0 <s D"
  shows "\<exists>w0. startCountdownTimer D w = Inr w0 \<and>
           last (goroutines w0) = (CountdownTimer, nchan w) \<and>
           (\<forall>k < nat (sint D).
              countdownLoop k (room w0) = ((room w0)\<lparr>Timer := D - of_nat k\<rparr>, True) \<and>
              State (room w0) = ''countdown'' \<and> Players (room w0) = Players (room w) \<and>
              sint (D - of_nat k) = sint D - int k \<and> 0 < sint (D - of_nat k)) \<and>
           countdownLoop (nat (sint D)) (room w0) =
             ((room w0)\<lparr>Timer := 0, timerRunning := False, State := ''scoreboard'',
                 RoundEndByTimeout := True, Votes := []\<rparr>, False) \<and>
           Players (fst (countdownLoop (nat (sint D)) (room w0))) = Players (room w)"
proof -
  let ?w0 = "w\<lparr>room := (room w)\<lparr>Timer := D, State := ''countdown'', timerRunning := True,
                 timerCancel := Some (nchan w), RoundEndByTimeout := False,
                 BlockedVoters := Map.empty, Voted := Map.empty, LastVotes := []\<rparr>,
            closedChans := closedAfterCancel w, nchan := Suc (nchan w),
            goroutines := goroutines w @ [(CountdownTimer, nchan w)]\<rparr>"
  have s: "startCountdownTimer D w = Inr ?w0" by (rule startCountdownTimer_result[OF ck])
  have run0: "timerRunning (room ?w0)" and t0: "Timer (room ?w0) = D" by simp_all
  have p: "0 < sint D" using pos by (simp add: spos_iff)
  have steps: "countdownLoop k (room ?w0) = ((room ?w0)\<lparr>Timer := D - of_nat k\<rparr>, True) \<and>
              State (room ?w0) = ''countdown'' \<and> Players (room ?w0) = Players (room w) \<and>
              sint (D - of_nat k) = sint D - int k \<and> 0 < sint (D - of_nat k)"
    if "k < nat (sint D)" for k
  proof -
    have lt: "int k < sint D" using that by simp
    then have lt0: "int k < sint (Timer (room ?w0))" by simp
    have "countdownLoop k (room ?w0) = ((room ?w0)\<lparr>Timer := Timer (room ?w0) - of_nat k\<rparr>, True)"
      by (rule countdownLoop_steps[OF run0 lt0])
    then show ?thesis using sint_sub_of_nat[OF lt] lt by simp
  qed
  have fin: "countdownLoop (nat (sint D)) (room ?w0) =
             ((room ?w0)\<lparr>Timer := 0, timerRunning := False, State := ''scoreboard'',
                 RoundEndByTimeout := True, Votes := []\<rparr>, False)"
    using countdownLoop_timeout[OF run0] p by simp
  have pl: "Players (fst (countdownLoop (nat (sint D)) (room ?w0))) = Players (room w)"
    unfolding fin by simp
  show ?thesis
    by (rule exI[of _ ?w0], intro conjI allI impI s steps fin pl) simp_all
qed

theorem countdown_runs_to_timeout_witness:
  "chans_ok lobby_world \<and> 0 <s (300 :: go_int) \<and>
   (\<exists>w0. startCountdownTimer 300 lobby_world = Inr w0 \<and>
      countdownLoop 299 (room w0) = ((room w0)\<lparr>Timer := 1\<rparr>, True) \<and>
      countdownLoop 300 (room w0) =
        ((room w0)\<lparr>Timer := 0, timerRunning := False, State := ''scoreboard'',
            RoundEndByTimeout := True, Votes := []\<rparr>, False))"
proof -
  have ck: "chans_ok lobby_world" by (rule chans_ok_world[OF lobby_world_ok])
  have pos: "0 <s (300 :: go_int)" by (simp add: spos_iff)
  have n: "nat (sint (300 :: go_int)) = 300" by simp
  from countdown_runs_to_timeout[OF ck pos] obtain w0 where
    s: "startCountdownTimer 300 lobby_world = Inr w0"
    and st: "\<forall>k < 300. countdownLoop k (room w0) = ((room w0)\<lparr>Timer := 300 - of_nat k\<rparr>, True)"
    and fin: "countdownLoop 300 (room w0) =
        ((room w0)\<lparr>Timer := 0, timerRunning := False, State := ''scoreboard'',
            RoundEndByTimeout := True, Votes := []\<rparr>, False)"
    unfolding n by blast
  have "countdownLoop 299 (room w0) = ((room w0)\<lparr>Timer := 300 - of_nat 299\<rparr>, True)"
    using st by simp
  then have "countdownLoop 299 (room w0) = ((room w0)\<lparr>Timer := 1\<rparr>, True)" by simp
  then show ?thesis using ck pos s fin by blast
qed

section \<open>The registry: \<^verbatim>\<open>getOrCreateRoom\<close>\<close>

text \<open>
  Claim C8. With \<^verbatim>\<open>create = true\<close>, \<^verbatim>\<open>getOrCreateRoom\<close> returns \<^verbatim>\<open>(nil, false)\<close> and
  leaves the registry alone when the code is taken; otherwise it registers and returns
  a new room with that code, in state \<^verbatim>\<open>lobby\<close>, chat enabled, with no players, no
  votes, no voted markers, no blocked voters and no last votes. With
  \<^verbatim>\<open>create = false\<close> it returns the registered room, or \<^verbatim>\<open>(nil, false)\<close> when there is
  none, and leaves the registry alone.
\<close>

theorem getOrCreateRoom_spec:
  "(rooms code = Some old \<longrightarrow>
      getOrCreateRoom code True rooms = ((None, False), rooms) \<and>
      getOrCreateRoom code False rooms = ((Some old, True), rooms)) \<and>
   (rooms code = None \<longrightarrow>
      getOrCreateRoom code False rooms = ((None, False), rooms) \<and>
      (\<exists>r. getOrCreateRoom code True rooms = ((Some r, True), rooms(code \<mapsto> r)) \<and>
           Code r = code \<and> State r = ''lobby'' \<and> ChatEnabled r \<and> Players r = [] \<and>
           Votes r = [] \<and> Voted r = Map.empty \<and> BlockedVoters r = Map.empty \<and>
           LastVotes r = [] \<and> HostID r = [] \<and> JudgeID r = [] \<and> InsiderID r = [] \<and>
           \<not> timerRunning r \<and> timerCancel r = None))"
  by (simp add: getOrCreateRoom_def newRoom_def Let_def)

theorem getOrCreateRoom_spec_witness:
  "getOrCreateRoom ''AB12'' True (Map.empty(''AB12'' \<mapsto> newRoom ''AB12'')) =
     ((None, False), Map.empty(''AB12'' \<mapsto> newRoom ''AB12'')) \<and>
   getOrCreateRoom ''AB12'' False (Map.empty(''AB12'' \<mapsto> newRoom ''AB12'')) =
     ((Some (newRoom ''AB12''), True), Map.empty(''AB12'' \<mapsto> newRoom ''AB12'')) \<and>
   getOrCreateRoom ''AB12'' False Map.empty = ((None, False), Map.empty) \<and>
   getOrCreateRoom ''AB12'' True Map.empty =
     ((Some (newRoom ''AB12''), True), Map.empty(''AB12'' \<mapsto> newRoom ''AB12''))"
  using getOrCreateRoom_spec[of "Map.empty(''AB12'' \<mapsto> newRoom ''AB12'')" "''AB12''"
      "newRoom ''AB12''"]
    getOrCreateRoom_spec[of Map.empty "''AB12''"]
  by (simp add: getOrCreateRoom_def Let_def)

end
